theory Spec2Isabelle
  imports Complex_Main
begin

section \<open>ElTable: the expression engine of \<^verbatim>\<open>eltab.h\<close> and \<^verbatim>\<open>eltab.cpp\<close>\<close>

text \<open>
  The development embeds the C++ class \<^verbatim>\<open>Tokenizer\<close> with its helper functions: the
  formula parser \<^verbatim>\<open>parse_expr\<close>, the arithmetic \<^verbatim>\<open>evaluate\<close>, the resolver of cell
  references \<^verbatim>\<open>parse_reference\<close> and the driver \<^verbatim>\<open>run\<close>. The input and output code of
  \<^verbatim>\<open>main\<close> is not modelled. Conventions of the embedding:
  \<^item> \<^verbatim>\<open>short\<close> and \<^verbatim>\<open>int\<close> values are mathematical integers; a narrowing conversion
    is written out (\<open>to_short\<close>, \<open>to_char\<close>), and an \<^verbatim>\<open>int\<close> computation that leaves
    the 32-bit range is undefined behaviour, an outcome of its own;
  \<^item> plain \<^verbatim>\<open>char\<close> is signed, as on the x86 targets the program was written for
    (\<open>char_int\<close>); the letters, digits and operators of a formula are below 128, where
    the choice makes no difference, and \<^verbatim>\<open>isdigit\<close> is false for the characters above;
  \<^item> a C++ exception is a value of type \<open>exn\<close>; every function that can throw
    returns a sum, \<open>Inl\<close> carrying the exception;
  \<^item> the member \<^verbatim>\<open>map_ref_cells\<close> is threaded through the functions that mutate it,
    and returned also when an exception is thrown, since the writes made before the
    exception stay in the map.
\<close>

subsection \<open>Machine integers and characters\<close>

definition int_range :: "int \<Rightarrow> bool" where
  "int_range i \<longleftrightarrow> - 2147483648 \<le> i \<and> i \<le> 2147483647"

definition to_short :: "int \<Rightarrow> int" where
  "to_short i = (let m = i mod 65536 in if m < 32768 then m else m - 65536)"

definition to_char :: "int \<Rightarrow> char" where
  "to_char i = char_of i"

definition char_int :: "char \<Rightarrow> int" where
  "char_int c = (let v = of_char c in if v < 128 then v else v - 256)"

definition isdigit :: "char \<Rightarrow> bool" where
  "isdigit c \<longleftrightarrow> 48 \<le> char_int c \<and> char_int c \<le> 57"

text \<open>\<^verbatim>\<open>std::to_string(int)\<close>: the decimal digits, with a minus sign for a negative value.\<close>

definition digit_char :: "nat \<Rightarrow> char" where
  "digit_char d = ''0123456789'' ! d"

function digits10 :: "nat \<Rightarrow> string" where
  "digits10 n = (if n < 10 then [digit_char n] else digits10 (n div 10) @ [digit_char (n mod 10)])"
  by pat_completeness auto
termination
  by (relation "measure id") auto

declare digits10.simps [simp del]

definition to_string :: "int \<Rightarrow> string" where
  "to_string i = (if i < 0 then CHR ''-'' # digits10 (nat (- i)) else digits10 (nat i))"

subsection \<open>Utility functions of \<^verbatim>\<open>eltab.h\<close>\<close>

type_synonym coords = "int \<times> int"

text \<open>\<^verbatim>\<open>s[0]\<close> of an empty \<^verbatim>\<open>std::string\<close> is the terminating zero character.\<close>

definition is_string_literal :: "string \<Rightarrow> bool" where
  "is_string_literal s = (case s of [] \<Rightarrow> False | c # _ \<Rightarrow> c = CHR 0x27)"

definition is_expression :: "string \<Rightarrow> bool" where
  "is_expression str = (case str of [] \<Rightarrow> False | c # _ \<Rightarrow> c = CHR ''='')"

definition is_number :: "string \<Rightarrow> bool" where
  "is_number s \<longleftrightarrow> s \<noteq> [] \<and> list_all isdigit s"

definition get_cell_by_coords :: "coords \<Rightarrow> string" where
  "get_cell_by_coords coords =
     (let row = fst coords;
          col = snd coords;
          c = (if col < 26 then to_char (65 + col)
               else if col \<ge> 26 \<and> col < 52 then to_char (97 + col)
               else CHR '' '')
      in c # to_string (row + 1))"

text \<open>
  \<^verbatim>\<open>get_number_by_str\<close> receives the iterator \<^verbatim>\<open>it\<close> by reference. The model takes the
  suffix of the string that starts at \<^verbatim>\<open>it\<close> and returns the number with the suffix that
  starts at the final position of \<^verbatim>\<open>it\<close> (the last character consumed, or the end).
  \<open>None\<close> is signed overflow in \<^verbatim>\<open>*it - '0' + num * 10\<close>.
\<close>

fun get_number_by_str_loop :: "int \<Rightarrow> string \<Rightarrow> (int \<times> string) option" where
  "get_number_by_str_loop num [] = Some (num, [])"
| "get_number_by_str_loop num (c # rest) =
     (if \<not> int_range (num * 10) \<or> \<not> int_range (char_int c - 48 + num * 10) then None
      else if rest = [] \<or> \<not> isdigit (hd rest) then Some (char_int c - 48 + num * 10, c # rest)
      else get_number_by_str_loop (char_int c - 48 + num * 10) rest)"

definition get_number_by_str :: "string \<Rightarrow> (int \<times> string) option" where
  "get_number_by_str s = get_number_by_str_loop 0 s"

subsection \<open>Tokens, expressions and the tokenizer\<close>

record Expr =
  m_coords :: coords
  m_value :: string

text \<open>
  \<^verbatim>\<open>struct Token\<close>. The field \<^verbatim>\<open>n_value\<close> is a \<^verbatim>\<open>double\<close>, but it is only ever assigned
  from an \<^verbatim>\<open>int\<close> (the constructor \<^verbatim>\<open>Token(const int)\<close> and the assignment
  \<^verbatim>\<open>left.n_value = static_cast<int>(left.n_value)\<close> in \<^verbatim>\<open>evaluate\<close>), so a number token
  stores that integer. \<^verbatim>\<open>s_value\<close> is empty unless the token was built from a string.
\<close>

datatype Token = T_UNDEFINED | T_NUMBER int | T_STRING string

fun Token_to_string :: "Token \<Rightarrow> string" where
  "Token_to_string (T_NUMBER n) = to_string n"
| "Token_to_string (T_STRING s) = s"
| "Token_to_string T_UNDEFINED = []"

fun is_incomplete :: "Token \<Rightarrow> bool" where
  "is_incomplete T_UNDEFINED = True"
| "is_incomplete _ = False"

datatype oper = OP_NONE | OP_ADD | OP_SUB | OP_MUL | OP_DIV | OP_UNKNOWN

text \<open>
  The exceptions of the program: \<^verbatim>\<open>std::domain_error\<close> and \<^verbatim>\<open>std::logic_error\<close> with
  their messages, \<^verbatim>\<open>std::out_of_range\<close> (thrown by \<^verbatim>\<open>std::stoi\<close>; a subclass of
  \<^verbatim>\<open>std::logic_error\<close>, like \<^verbatim>\<open>std::domain_error\<close>), and undefined behaviour.
\<close>

datatype exn =
    Domain_error string
  | Logic_error string
  | Out_of_range
  | Undefined_behaviour

record Tokenizer =
  m_cols :: int
  m_rows :: int
  m_table :: "string list list"
  m_expressions :: "Expr list"

text \<open>\<^verbatim>\<open>m_table[row][col]\<close>; a read outside the allocated table is undefined (\<open>None\<close>).\<close>

definition table_at :: "Tokenizer \<Rightarrow> int \<Rightarrow> int \<Rightarrow> string option" where
  "table_at tk row col =
     (if 0 \<le> row \<and> row < int (length (m_table tk)) \<and>
         0 \<le> col \<and> col < int (length (m_table tk ! nat row))
      then Some (m_table tk ! nat row ! nat col) else None)"

definition is_ref_candidate :: "Tokenizer \<Rightarrow> char \<Rightarrow> bool" where
  "is_ref_candidate tk c \<longleftrightarrow>
     (m_cols tk \<le> 26 \<and> (char_int c \<ge> 65 \<and> char_int c \<le> 65 + (m_cols tk - 1))) \<or>
     (m_cols tk > 26 \<and> m_cols tk \<le> 52 \<and>
        (char_int c \<ge> 97 \<and> char_int c \<le> 97 + (m_cols tk - 26 - 1)))"

definition get_col_by_char :: "Tokenizer \<Rightarrow> char \<Rightarrow> int" where
  "get_col_by_char tk c =
     (if m_cols tk \<le> 26 then to_short (char_int c - 65)
      else if m_cols tk > 26 \<and> m_cols tk \<le> 52 then to_short (char_int c - 97)
      else - 1)"

definition get_operator :: "char \<Rightarrow> oper" where
  "get_operator ch =
     (if ch = CHR ''*'' then OP_MUL
      else if ch = CHR ''/'' then OP_DIV
      else if ch = CHR ''+'' then OP_ADD
      else if ch = CHR ''-'' then OP_SUB
      else OP_UNKNOWN)"

definition is_operator :: "char \<Rightarrow> bool" where
  "is_operator ch \<longleftrightarrow> OP_UNKNOWN \<noteq> get_operator ch"

subsection \<open>The reference cache \<^verbatim>\<open>map_ref_cells\<close>\<close>

text \<open>
  The \<^verbatim>\<open>unordered_map<string, Token>\<close> is modelled by the list of the writes made to it,
  newest first, so that the order of the writes can be stated. \<open>cache_find\<close> is the
  content of the map: \<^verbatim>\<open>emplace\<close> inserts a default token only where the key is absent,
  \<^verbatim>\<open>map_ref_cells[k] = tok\<close> overwrites. The program never erases a key.
\<close>

datatype cache_op = Reserve string | Commit string Token

type_synonym cache = "cache_op list"

fun cache_find :: "cache \<Rightarrow> string \<Rightarrow> Token option" where
  "cache_find [] k = None"
| "cache_find (Reserve k' # h) k =
     (if k' = k \<and> cache_find h k = None then Some T_UNDEFINED else cache_find h k)"
| "cache_find (Commit k' t # h) k = (if k' = k then Some t else cache_find h k)"

definition emplace :: "string \<Rightarrow> cache \<Rightarrow> cache" where
  "emplace k h = Reserve k # h"

definition assign :: "string \<Rightarrow> Token \<Rightarrow> cache \<Rightarrow> cache" where
  "assign k t h = Commit k t # h"

subsection \<open>Arithmetic: \<^verbatim>\<open>Tokenizer::evaluate\<close>\<close>

text \<open>
  The value of \<^verbatim>\<open>left.n_value\<close> between the arithmetic and the cast. Both operands are
  integers of the \<^verbatim>\<open>int\<close> range (lemma \<open>parse_ok\<close> below), so a sum, a difference
  and a product that stays in that range are exact in IEEE double precision, a product
  that leaves the range is rounded to a double that is outside it as well, and the
  rounding error of a quotient is too small to reach the next integer: the exact
  rational stands for the finite double. Division by zero gives an infinity for a
  non-zero dividend and a NaN for \<open>0 / 0\<close>; \<^verbatim>\<open>isinf\<close> is false for a NaN.
\<close>

datatype double = Finite rat | PlusInf | MinusInf | NaN

definition double_div :: "rat \<Rightarrow> rat \<Rightarrow> double" where
  "double_div a b =
     (if b \<noteq> 0 then Finite (a / b)
      else if a > 0 then PlusInf else if a < 0 then MinusInf else NaN)"

definition isinf :: "double \<Rightarrow> bool" where
  "isinf d \<longleftrightarrow> d = PlusInf \<or> d = MinusInf"

text \<open>
  \<^verbatim>\<open>static_cast<int>(double)\<close> discards the fractional part; the behaviour is undefined
  (\<open>None\<close>) when the truncated value is not an \<^verbatim>\<open>int\<close>, which includes NaN and infinity.
\<close>

definition static_cast_int :: "double \<Rightarrow> int option" where
  "static_cast_int d =
     (case d of
        Finite x \<Rightarrow>
          (let k = (if x < 0 then - \<lfloor>- x\<rfloor> else \<lfloor>x\<rfloor>)
           in if int_range k then Some k else None)
      | _ \<Rightarrow> None)"

text \<open>
  \<^verbatim>\<open>evaluate\<close> pops its two operands from the vector it receives by reference; the
  model returns the vector that is left together with the result. The back of the
  vector is the end of the list. Fewer than two operands make \<^verbatim>\<open>back()\<close> undefined.
\<close>

definition truncated :: "double \<Rightarrow> Token list \<Rightarrow> exn + Token \<times> Token list" where
  "truncated d toks =
     (case static_cast_int d of
        None \<Rightarrow> Inl Undefined_behaviour
      | Some k \<Rightarrow> Inr (T_NUMBER k, toks))"

definition evaluate :: "Token list \<Rightarrow> oper \<Rightarrow> exn + Token \<times> Token list" where
  "evaluate toks op =
     (case rev toks of
        right # left # below \<Rightarrow>
          (case (left, right) of
             (T_NUMBER l, T_NUMBER r) \<Rightarrow>
               (case op of
                  OP_ADD \<Rightarrow> truncated (Finite (of_int l + of_int r)) (rev below)
                | OP_SUB \<Rightarrow> truncated (Finite (of_int l - of_int r)) (rev below)
                | OP_MUL \<Rightarrow> truncated (Finite (of_int l * of_int r)) (rev below)
                | OP_DIV \<Rightarrow>
                    (let q = double_div (of_int l) (of_int r)
                     in if isinf q then Inl (Domain_error ''#E_INFINITE'')
                        else truncated q (rev below))
                | _ \<Rightarrow> Inl (Domain_error ''#E_UNKNOWN_OP''))
           | _ \<Rightarrow> Inl (Domain_error ''#E_UNEXP_EXPR''))
      | _ \<Rightarrow> Inl Undefined_behaviour)"

text \<open>
  The block that follows both \<^verbatim>\<open>toks.push_back\<close> calls of \<^verbatim>\<open>parse_expr\<close>:
  \<^verbatim>\<open>if (toks.size() == 2 && op != OP_NONE && op != OP_UNKNOWN)
     { tok = evaluate(toks, op); toks.push_back(tok); op = OP_NONE; }\<close>
\<close>

definition reduce :: "Token list \<Rightarrow> oper \<Rightarrow> Token \<Rightarrow> exn + Token list \<times> oper \<times> Token" where
  "reduce toks op tok =
     (if length toks = 2 \<and> op \<noteq> OP_NONE \<and> op \<noteq> OP_UNKNOWN then
        (case evaluate toks op of
           Inl e \<Rightarrow> Inl e
         | Inr (t, toks') \<Rightarrow> Inr (toks' @ [t], OP_NONE, t))
      else Inr (toks, op, tok))"

text \<open>
  \<^verbatim>\<open>std::stoi\<close> on a string of digits: \<^verbatim>\<open>std::out_of_range\<close> when the value is not an
  \<^verbatim>\<open>int\<close>.
\<close>

definition dec_value :: "string \<Rightarrow> int" where
  "dec_value s = foldl (\<lambda>num c. char_int c - 48 + num * 10) 0 s"

definition stoi :: "string \<Rightarrow> exn + int" where
  "stoi s = (if int_range (dec_value s) then Inr (dec_value s) else Inl Out_of_range)"

subsection \<open>\<^verbatim>\<open>parse_expr\<close>, \<^verbatim>\<open>parse_reference\<close> and \<^verbatim>\<open>run\<close>\<close>

text \<open>
  \<^verbatim>\<open>parse_expr\<close> and \<^verbatim>\<open>parse_reference\<close> call each other. The recursion of the program
  is not structural, so the functions carry a bound \<open>n\<close> on the depth of the nested
  formula evaluations: \<open>None\<close> means that the bound was reached, and
  \<open>parse_reference\<close> spends one unit where it enters the formula of the referenced
  cell. \<open>parse_expr_loop\<close> is the \<^verbatim>\<open>for\<close> loop of \<^verbatim>\<open>parse_expr\<close> over the rest of the
  string, with the local variables \<^verbatim>\<open>toks\<close>, \<^verbatim>\<open>op\<close> and \<^verbatim>\<open>tok\<close>. In
  \<open>parse_reference\<close>, \<^verbatim>\<open>catch (domain_error &)\<close> lets every other exception pass.
\<close>

function parse_expr :: "nat \<Rightarrow> Tokenizer \<Rightarrow> string \<Rightarrow> cache \<Rightarrow> ((exn + Token) \<times> cache) option"
  and parse_expr_loop :: "nat \<Rightarrow> Tokenizer \<Rightarrow> string \<Rightarrow> Token list \<Rightarrow> oper \<Rightarrow> Token \<Rightarrow> cache
        \<Rightarrow> ((exn + Token list \<times> oper \<times> Token) \<times> cache) option"
  and parse_reference :: "nat \<Rightarrow> Tokenizer \<Rightarrow> coords \<Rightarrow> cache \<Rightarrow> ((exn + Token) \<times> cache) option"
where
  "parse_expr n tk str h =
     (case parse_expr_loop n tk str [] OP_NONE T_UNDEFINED h of
        None \<Rightarrow> None
      | Some (Inl e, h') \<Rightarrow> Some (Inl e, h')
      | Some (Inr (toks, op, tok), h') \<Rightarrow>
          Some (Inr (if length toks = 1 then last toks else tok), h'))"
| "parse_expr_loop n tk [] toks op tok h = Some (Inr (toks, op, tok), h)"
| "parse_expr_loop n tk (c # rest) toks op tok h =
     (if is_operator c then
        (if op \<noteq> OP_NONE \<or> toks = [] then Some (Inl (Domain_error ''#E_UNEXP_SYMBOL''), h)
         else parse_expr_loop n tk rest toks (get_operator c) tok h)
      else if isdigit c then
        (case get_number_by_str (c # rest) of
           None \<Rightarrow> Some (Inl Undefined_behaviour, h)
         | Some (num, it) \<Rightarrow>
             (case reduce (toks @ [T_NUMBER num]) op tok of
                Inl e \<Rightarrow> Some (Inl e, h)
              | Inr (toks', op', tok') \<Rightarrow> parse_expr_loop n tk (tl it) toks' op' tok' h))
      else if is_ref_candidate tk c then
        (case get_number_by_str rest of
           None \<Rightarrow> Some (Inl Undefined_behaviour, h)
         | Some (num, it) \<Rightarrow>
             (let col = get_col_by_char tk c;
                  row = to_short (num - 1)
              in if row + 1 > m_rows tk \<or> row < 0 then Some (Inl (Domain_error ''#E_INVALID_REF''), h)
                 else
                   (case (case cache_find h (get_cell_by_coords (row, col)) of
                            Some t \<Rightarrow>
                              if is_incomplete t then Some (Inl (Domain_error ''#E_CROSS_REF''), h)
                              else Some (Inr t, h)
                          | None \<Rightarrow> parse_reference n tk (row, col) h) of
                      None \<Rightarrow> None
                    | Some (Inl e, h') \<Rightarrow> Some (Inl e, h')
                    | Some (Inr t, h') \<Rightarrow>
                        (case reduce (toks @ [t]) op t of
                           Inl e \<Rightarrow> Some (Inl e, h')
                         | Inr (toks', op', tok') \<Rightarrow>
                             parse_expr_loop n tk (tl it) toks' op' tok' h'))))
      else Some (Inl (Domain_error ''#E_UNEXP_SYMB''), h))"
| "parse_reference n tk coords h =
     (case table_at tk (fst coords) (snd coords) of
        None \<Rightarrow> Some (Inl Undefined_behaviour, h)
      | Some s \<Rightarrow>
          (let scell = get_cell_by_coords coords
           in if cache_find h scell \<noteq> None
              then Some (Inl (Logic_error ''Internal error: parse_reference()''), h)
              else if is_expression s then
                (case n of
                   0 \<Rightarrow> None
                 | Suc m \<Rightarrow>
                     (case parse_expr m tk (tl s) (emplace scell h) of
                        None \<Rightarrow> None
                      | Some (Inl (Domain_error msg), h') \<Rightarrow>
                          Some (Inr (T_STRING msg), assign scell (T_STRING msg) h')
                      | Some (Inl e, h') \<Rightarrow> Some (Inl e, h')
                      | Some (Inr tok, h') \<Rightarrow> Some (Inr tok, assign scell tok h')))
              else if is_number s then
                (case stoi s of
                   Inl e \<Rightarrow> Some (Inl e, emplace scell h)
                 | Inr v \<Rightarrow> Some (Inr (T_NUMBER v), assign scell (T_NUMBER v) (emplace scell h)))
              else if is_string_literal s then
                Some (Inr (T_STRING (tl s)), assign scell (T_STRING (tl s)) (emplace scell h))
              else if s = [] then
                Some (Inr (T_STRING []), assign scell (T_STRING []) (emplace scell h))
              else Some (Inl (Domain_error ''E_WRONG_REF''), emplace scell h)))"
  by pat_completeness auto
termination
proof -
  have loop_len: "length it \<le> length s"
    if "get_number_by_str_loop num s = Some (v, it)" for num s v it
    using that
    by (induction num s rule: get_number_by_str_loop.induct) (auto split: if_splits)
  have len: "length it \<le> length s" if "get_number_by_str s = Some (v, it)" for s v it
    using that loop_len unfolding get_number_by_str_def by blast
  show ?thesis
    by (relation "measures [\<lambda>x. case x of
            Inl (n, tk, str, h) \<Rightarrow> 3 * n + 2
          | Inr (Inl (n, tk, str, toks, op, tok, h)) \<Rightarrow> 3 * n + 1
          | Inr (Inr (n, tk, coords, h)) \<Rightarrow> 3 * n, \<lambda>x. case x of
            Inl (n, tk, str, h) \<Rightarrow> 0
          | Inr (Inl (n, tk, str, toks, op, tok, h)) \<Rightarrow> length str
          | Inr (Inr (n, tk, coords, h)) \<Rightarrow> 0]")
      (auto dest: len)
qed

text \<open>
  \<^verbatim>\<open>Tokenizer::run\<close>, the loop over \<^verbatim>\<open>m_expressions\<close>. The second handler,
  \<^verbatim>\<open>catch (logic_error &)\<close>, prints the message to \<^verbatim>\<open>cerr\<close>: the model collects the
  exceptions that reach it in \<open>diag\<close>. The token then committed is the default one.
\<close>

fun run_loop :: "nat \<Rightarrow> Tokenizer \<Rightarrow> Expr list \<Rightarrow> cache \<Rightarrow> exn list \<Rightarrow> (exn + cache \<times> exn list) option" where
  "run_loop n tk [] h diag = Some (Inr (h, diag))"
| "run_loop n tk (ex # exs) h diag =
     (let scell = get_cell_by_coords (m_coords ex)
      in if cache_find h scell \<noteq> None then run_loop n tk exs h diag
         else
           (case parse_expr n tk (m_value ex) (emplace scell h) of
              None \<Rightarrow> None
            | Some (Inl (Domain_error msg), h') \<Rightarrow>
                run_loop n tk exs (assign scell (T_STRING msg) h') diag
            | Some (Inl Undefined_behaviour, h') \<Rightarrow> Some (Inl Undefined_behaviour)
            | Some (Inl e, h') \<Rightarrow> run_loop n tk exs (assign scell T_UNDEFINED h') (diag @ [e])
            | Some (Inr tok, h') \<Rightarrow> run_loop n tk exs (assign scell tok h') diag))"

text \<open>
  A freshly constructed tokenizer has an empty cache. A nested evaluation enters a
  formula cell that a reference can name (a row below \<^verbatim>\<open>m_rows\<close>, one of 26 letters)
  and that is not in the cache yet, so \<open>fuel_bound\<close> is a depth that \<^verbatim>\<open>run\<close> cannot
  exceed (lemmas \<open>run_returns\<close> and \<open>run_fuel_enough\<close> below).
\<close>

definition run_fuel :: "nat \<Rightarrow> Tokenizer \<Rightarrow> (exn + cache \<times> exn list) option" where
  "run_fuel n tk = run_loop n tk (m_expressions tk) [] []"

definition fuel_bound :: "Tokenizer \<Rightarrow> nat" where
  "fuel_bound tk = 26 * nat (m_rows tk)"

definition run :: "Tokenizer \<Rightarrow> (exn + cache \<times> exn list) option" where
  "run tk = run_fuel (fuel_bound tk) tk"

text \<open>\<^verbatim>\<open>get_value\<close>: \<^verbatim>\<open>operator[]\<close> inserts a default token where the key is absent.\<close>

definition get_value :: "coords \<Rightarrow> cache \<Rightarrow> string \<times> cache" where
  "get_value coords h =
     (let scell = get_cell_by_coords coords
      in case cache_find h scell of
           None \<Rightarrow> (Token_to_string T_UNDEFINED, emplace scell h)
         | Some t \<Rightarrow> (Token_to_string t, h))"

section \<open>Vocabulary of the properties\<close>

text \<open>
  The ordinary sum, difference, product and quotient of two integers, over the
  rationals: what the arithmetic of \<open>evaluate\<close> is compared with.
\<close>

definition exact_result :: "oper \<Rightarrow> int \<Rightarrow> int \<Rightarrow> rat" where
  "exact_result op l r =
     (case op of
        OP_ADD \<Rightarrow> of_int l + of_int r
      | OP_SUB \<Rightarrow> of_int l - of_int r
      | OP_MUL \<Rightarrow> of_int l * of_int r
      | OP_DIV \<Rightarrow> of_int l / of_int r
      | _ \<Rightarrow> 0)"

text \<open>
  The truncated quotient in integer arithmetic, and the outcome of the cast of an
  integer-valued double: \<open>evaluate\<close> is rewritten with them (lemma \<open>evaluate_numbers\<close>),
  which lets the simplifier compute it on numerals.
\<close>

definition trunc_div :: "int \<Rightarrow> int \<Rightarrow> int" where
  "trunc_div l r = (if (l < 0 \<and> 0 < r) \<or> (0 < l \<and> r < 0) then - ((- l) div r) else l div r)"

definition int_result :: "int \<Rightarrow> Token list \<Rightarrow> exn + Token \<times> Token list" where
  "int_result k below = (if int_range k then Inr (T_NUMBER k, below) else Inl Undefined_behaviour)"

text \<open>
  The text of a number in a formula, and of the row in a reference: \<open>literal\<close> is a
  non-empty run of digits whose value is an \<^verbatim>\<open>int\<close>.
\<close>

definition literal :: "string \<Rightarrow> bool" where
  "literal ds \<longleftrightarrow> ds \<noteq> [] \<and> list_all isdigit ds \<and> dec_value ds \<le> 2147483647"

text \<open>
  The two pieces of the reference branch of \<open>parse_expr_loop\<close>, named so that the
  branch can be stated as one equation (lemma \<open>loop_reference\<close>): the row of a
  reference, \<^verbatim>\<open>short row = get_number_by_str(it, str) - 1\<close>, and the look-up of the
  referenced cell in the cache, which calls \<open>parse_reference\<close> where the cell is absent.
\<close>

definition resolve_cell :: "nat \<Rightarrow> Tokenizer \<Rightarrow> coords \<Rightarrow> cache \<Rightarrow> ((exn + Token) \<times> cache) option" where
  "resolve_cell n tk coords h =
     (case cache_find h (get_cell_by_coords coords) of
        Some t \<Rightarrow>
          if is_incomplete t then Some (Inl (Domain_error ''#E_CROSS_REF''), h)
          else Some (Inr t, h)
      | None \<Rightarrow> parse_reference n tk coords h)"

definition ref_row :: "int \<Rightarrow> int" where
  "ref_row num = to_short (num - 1)"

text \<open>
  A formula that is a chain of operands separated by operators, and its value when the
  operators are applied strictly from left to right. An operand is a number literal or
  a reference, a column letter followed by the digits of the row. \<open>operand_value\<close> is
  the token that the scan pushes for an operand: the number, or for a reference what
  the row check and the look-up of the cell give, with the cache they leave.
  \<open>fold_left\<close> applies \<open>evaluate\<close> to the accumulated value and the next operand, one
  (operator, operand) pair after the other, threading the cache; \<open>chain_value\<close> starts
  it with the first operand. \<open>operations_text\<close> writes the pairs as text.
\<close>

datatype operand = Lit string | Ref char string

fun operand_text :: "operand \<Rightarrow> string" where
  "operand_text (Lit ds) = ds"
| "operand_text (Ref c ds) = c # ds"

fun operand_ok :: "Tokenizer \<Rightarrow> operand \<Rightarrow> bool" where
  "operand_ok tk (Lit ds) = literal ds"
| "operand_ok tk (Ref c ds) = (is_ref_candidate tk c \<and> literal ds)"

fun operand_value :: "nat \<Rightarrow> Tokenizer \<Rightarrow> operand \<Rightarrow> cache \<Rightarrow> ((exn + Token) \<times> cache) option" where
  "operand_value n tk (Lit ds) h = Some (Inr (T_NUMBER (dec_value ds)), h)"
| "operand_value n tk (Ref c ds) h =
     (if ref_row (dec_value ds) + 1 > m_rows tk \<or> ref_row (dec_value ds) < 0
      then Some (Inl (Domain_error ''#E_INVALID_REF''), h)
      else resolve_cell n tk (ref_row (dec_value ds), get_col_by_char tk c) h)"

fun fold_left :: "nat \<Rightarrow> Tokenizer \<Rightarrow> Token \<Rightarrow> (char \<times> operand) list \<Rightarrow> cache
    \<Rightarrow> ((exn + Token) \<times> cache) option" where
  "fold_left n tk acc [] h = Some (Inr acc, h)"
| "fold_left n tk acc ((oc, x) # ops) h =
     (case operand_value n tk x h of
        None \<Rightarrow> None
      | Some (Inl e, h') \<Rightarrow> Some (Inl e, h')
      | Some (Inr t, h') \<Rightarrow>
          (case evaluate [acc, t] (get_operator oc) of
             Inl e \<Rightarrow> Some (Inl e, h')
           | Inr (t', _) \<Rightarrow> fold_left n tk t' ops h'))"

definition chain_value :: "nat \<Rightarrow> Tokenizer \<Rightarrow> operand \<Rightarrow> (char \<times> operand) list \<Rightarrow> cache
    \<Rightarrow> ((exn + Token) \<times> cache) option" where
  "chain_value n tk x0 ops h =
     (case operand_value n tk x0 h of
        None \<Rightarrow> None
      | Some (Inl e, h') \<Rightarrow> Some (Inl e, h')
      | Some (Inr t, h') \<Rightarrow> fold_left n tk t ops h')"

definition operations_text :: "(char \<times> operand) list \<Rightarrow> string" where
  "operations_text ops = concat (map (\<lambda>(oc, x). oc # operand_text x) ops)"

definition chain_ok :: "Tokenizer \<Rightarrow> (char \<times> operand) list \<Rightarrow> bool" where
  "chain_ok tk ops = list_all (\<lambda>(oc, x). is_operator oc \<and> operand_ok tk x) ops"

text \<open>
  The invariant of the scan that decides what \<open>parse_expr\<close> returns for more than one
  operand: while no operator is pending, a non-empty stack is never followed by a
  digit (a number was consumed to its last digit), and with two or more operands \<^verbatim>\<open>tok\<close>
  is the operand pushed last.
\<close>

definition scan_inv :: "Token list \<Rightarrow> oper \<Rightarrow> Token \<Rightarrow> string \<Rightarrow> bool" where
  "scan_inv toks op tok str \<longleftrightarrow>
     (op = OP_NONE \<and> toks \<noteq> [] \<longrightarrow> str = [] \<or> \<not> isdigit (hd str)) \<and>
     (op = OP_NONE \<and> 2 \<le> length toks \<longrightarrow> tok = last toks)"

text \<open>
  How the cache can change during a call. \<open>grows h h'\<close>: the log \<open>h'\<close> extends \<open>h\<close> by
  resolutions that each reserve a key absent so far and, unless an exception cut the
  resolution short, commit that key after the resolutions nested in it.
\<close>

inductive grows :: "cache \<Rightarrow> cache \<Rightarrow> bool" where
  grows_refl: "grows h h"
| grows_trans: "grows h h1 \<Longrightarrow> grows h1 h2 \<Longrightarrow> grows h h2"
| grows_open: "cache_find h k = None \<Longrightarrow> grows h (Reserve k # h)"
| grows_close: "cache_find h k = None \<Longrightarrow> grows (Reserve k # h) h1 \<Longrightarrow> grows h (Commit k t # h1)"

text \<open>
  The order of the writes. \<open>wf_log\<close>: a key is reserved only when no earlier write
  reserved it, and it is committed only after it was reserved and at most once.
  \<open>events_on k h\<close> lists the writes to the key \<open>k\<close>, oldest first.
\<close>

fun reserves_of :: "cache \<Rightarrow> string list" where
  "reserves_of [] = []"
| "reserves_of (Reserve k # h) = k # reserves_of h"
| "reserves_of (Commit k t # h) = reserves_of h"

fun commits_of :: "cache \<Rightarrow> string list" where
  "commits_of [] = []"
| "commits_of (Reserve k # h) = commits_of h"
| "commits_of (Commit k t # h) = k # commits_of h"

fun wf_log :: "cache \<Rightarrow> bool" where
  "wf_log [] = True"
| "wf_log (Reserve k # h) = (k \<notin> set (reserves_of h) \<and> wf_log h)"
| "wf_log (Commit k t # h) = (k \<in> set (reserves_of h) \<and> k \<notin> set (commits_of h) \<and> wf_log h)"

fun key_of :: "cache_op \<Rightarrow> string" where
  "key_of (Reserve k) = k"
| "key_of (Commit k t) = k"

definition events_on :: "string \<Rightarrow> cache \<Rightarrow> cache_op list" where
  "events_on k h = filter (\<lambda>w. key_of w = k) (rev h)"

text \<open>
  The cells that a reference can name, and those among them that the cache does not
  hold yet: the number of the latter bounds the depth of the nested evaluations.
\<close>

definition cells :: "Tokenizer \<Rightarrow> coords set" where
  "cells tk = {0 ..< m_rows tk} \<times> {0 ..< 26}"

definition unresolved :: "Tokenizer \<Rightarrow> cache \<Rightarrow> coords set" where
  "unresolved tk h = {p \<in> cells tk. cache_find h (get_cell_by_coords p) = None}"


definition grid_empty_formula :: Tokenizer where
  "grid_empty_formula =
     \<lparr>m_cols = 2, m_rows = 1, m_table = [[''='', ''=A1'']],
      m_expressions = [\<lparr>m_coords = (0, 0), m_value = ''''\<rparr>,
                       \<lparr>m_coords = (0, 1), m_value = ''A1''\<rparr>]\<rparr>"

definition grid_big_literal :: Tokenizer where
  "grid_big_literal =
     \<lparr>m_cols = 2, m_rows = 1, m_table = [[''=B1'', ''99999999999'']],
      m_expressions = [\<lparr>m_coords = (0, 0), m_value = ''B1''\<rparr>]\<rparr>"

definition grid_example :: Tokenizer where
  "grid_example =
     \<lparr>m_cols = 4, m_rows = 3,
      m_table = [[''12'', ''=C2'', ''3'', [CHR 0x27] @ ''Sample''],
                 [''=A1+B1*C1/5'', ''=A2*B1'', ''=B3-C3'', [CHR 0x27] @ ''Spread''],
                 [[CHR 0x27] @ ''Test'', ''=4-3'', ''5'', [CHR 0x27] @ ''Sheet'']],
      m_expressions = [\<lparr>m_coords = (0, 1), m_value = ''C2''\<rparr>,
                       \<lparr>m_coords = (1, 0), m_value = ''A1+B1*C1/5''\<rparr>,
                       \<lparr>m_coords = (1, 1), m_value = ''A2*B1''\<rparr>,
                       \<lparr>m_coords = (1, 2), m_value = ''B3-C3''\<rparr>,
                       \<lparr>m_coords = (2, 1), m_value = ''4-3''\<rparr>]\<rparr>"

definition log_example :: cache where
  "log_example =
     [Commit ''B2'' (T_NUMBER (- 16)), Reserve ''B2'',
      Commit ''A2'' (T_NUMBER 4), Commit ''C1'' (T_NUMBER 3),
      Reserve ''C1'', Commit ''A1'' (T_NUMBER 12), Reserve ''A1'',
      Reserve ''A2'', Commit ''B1'' (T_NUMBER (- 4)),
      Commit ''C2'' (T_NUMBER (- 4)), Commit ''C3'' (T_NUMBER 5),
      Reserve ''C3'', Commit ''B3'' (T_NUMBER 1), Reserve ''B3'',
      Reserve ''C2'', Reserve ''B1'']"


definition grid_cycle_27 :: Tokenizer where
  "grid_cycle_27 =
     \<lparr>m_cols = 27, m_rows = 1, m_table = [''=B1'' # ''=A1'' # replicate 25 []],
      m_expressions = [\<lparr>m_coords = (0, 0), m_value = ''B1''\<rparr>,
                       \<lparr>m_coords = (0, 1), m_value = ''A1''\<rparr>]\<rparr>"



definition record_ok :: "Tokenizer \<Rightarrow> Expr \<Rightarrow> bool" where
  "record_ok tk ex \<longleftrightarrow>
     0 \<le> fst (m_coords ex) \<and> fst (m_coords ex) < m_rows tk \<and>
     0 \<le> snd (m_coords ex) \<and> snd (m_coords ex) < m_cols tk \<and>
     table_at tk (fst (m_coords ex)) (snd (m_coords ex)) = Some (CHR ''='' # m_value ex)"

definition work_list_ok :: "Tokenizer \<Rightarrow> bool" where
  "work_list_ok tk = list_all (record_ok tk) (m_expressions tk)"



text \<open>
  A number token is sound when its value is an \<^verbatim>\<open>int\<close>; a cache is sound when every
  committed token is.
\<close>

fun token_ok :: "Token \<Rightarrow> bool" where
  "token_ok (T_NUMBER k) = int_range k"
| "token_ok _ = True"

fun cache_op_ok :: "cache_op \<Rightarrow> bool" where
  "cache_op_ok (Commit k t) = token_ok t"
| "cache_op_ok (Reserve k) = True"

definition cache_ok :: "cache \<Rightarrow> bool" where
  "cache_ok h = list_all cache_op_ok h"

section \<open>Properties\<close>

subsection \<open>Arithmetic of \<open>evaluate\<close>\<close>

lemma trunc_props:
  fixes x :: rat
  defines "k \<equiv> (if x < 0 then - \<lfloor>- x\<rfloor> else \<lfloor>x\<rfloor>)"
  shows "\<bar>of_int k\<bar> \<le> \<bar>x\<bar>" and "\<bar>x\<bar> < \<bar>of_int k\<bar> + 1" and "0 \<le> of_int k * x"
proof -
  show "\<bar>of_int k\<bar> \<le> \<bar>x\<bar>"
  proof (cases "x < 0")
    case True
    then have "0 \<le> \<lfloor>- x\<rfloor>" by simp
    moreover have "of_int \<lfloor>- x\<rfloor> \<le> - x" by (rule of_int_floor_le)
    ultimately show ?thesis using True by (simp add: k_def)
  next
    case False
    then have "0 \<le> \<lfloor>x\<rfloor>" by simp
    moreover have "of_int \<lfloor>x\<rfloor> \<le> x" by (rule of_int_floor_le)
    ultimately show ?thesis using False by (simp add: k_def)
  qed
  show "\<bar>x\<bar> < \<bar>of_int k\<bar> + 1"
  proof (cases "x < 0")
    case True
    then have "0 \<le> \<lfloor>- x\<rfloor>" by simp
    moreover have "- x < of_int \<lfloor>- x\<rfloor> + 1" by linarith
    ultimately show ?thesis using True by (simp add: k_def)
  next
    case False
    then have "0 \<le> \<lfloor>x\<rfloor>" by simp
    moreover have "x < of_int \<lfloor>x\<rfloor> + 1" by linarith
    ultimately show ?thesis using False by (simp add: k_def)
  qed
  show "0 \<le> of_int k * x"
  proof (cases "x < 0")
    case True
    then have "0 \<le> \<lfloor>- x\<rfloor>" by simp
    then have "0 \<le> (of_int \<lfloor>- x\<rfloor> :: rat) * (- x)" using True by (intro mult_nonneg_nonneg) simp_all
    then show ?thesis using True by (simp add: k_def)
  next
    case False
    then have "0 \<le> \<lfloor>x\<rfloor>" by simp
    then have "0 \<le> (of_int \<lfloor>x\<rfloor> :: rat) * x" using False by (intro mult_nonneg_nonneg) simp_all
    then show ?thesis using False by (simp add: k_def)
  qed
qed

lemma static_cast_int_of_int:
  "static_cast_int (Finite (of_int k)) = (if int_range k then Some k else None)"
  by (simp add: static_cast_int_def)

lemma trunc_quotient:
  assumes "r \<noteq> 0"
  shows "(if (of_int l / of_int r :: rat) < 0 then - \<lfloor>- (of_int l / of_int r :: rat)\<rfloor>
          else \<lfloor>of_int l / of_int r :: rat\<rfloor>) = trunc_div l r"
proof -
  have neg: "(of_int l / of_int r :: rat) < 0 \<longleftrightarrow> (l < 0 \<and> 0 < r) \<or> (0 < l \<and> r < 0)"
    by (auto simp: divide_less_0_iff)
  have "\<lfloor>- (of_int l / of_int r :: rat)\<rfloor> = (- l) div r"
    using floor_divide_of_int_eq [of "- l" r, where ?'a = rat] by simp
  moreover have "\<lfloor>of_int l / of_int r :: rat\<rfloor> = l div r"
    by (rule floor_divide_of_int_eq)
  ultimately show ?thesis unfolding trunc_div_def neg by simp
qed

lemma evaluate_numbers:
  "evaluate (below @ [T_NUMBER l, T_NUMBER r]) op =
     (case op of
        OP_ADD \<Rightarrow> int_result (l + r) below
      | OP_SUB \<Rightarrow> int_result (l - r) below
      | OP_MUL \<Rightarrow> int_result (l * r) below
      | OP_DIV \<Rightarrow>
          (if r = 0 then (if l = 0 then Inl Undefined_behaviour else Inl (Domain_error ''#E_INFINITE''))
           else int_result (trunc_div l r) below)
      | _ \<Rightarrow> Inl (Domain_error ''#E_UNKNOWN_OP''))"
proof (cases op)
  case OP_ADD
  have "static_cast_int (Finite (of_int l + of_int r)) = (if int_range (l + r) then Some (l + r) else None)"
    using static_cast_int_of_int [of "l + r"] by simp
  then show ?thesis using OP_ADD by (simp add: evaluate_def truncated_def int_result_def)
next
  case OP_SUB
  have "static_cast_int (Finite (of_int l - of_int r)) = (if int_range (l - r) then Some (l - r) else None)"
    using static_cast_int_of_int [of "l - r"] by simp
  then show ?thesis using OP_SUB by (simp add: evaluate_def truncated_def int_result_def)
next
  case OP_MUL
  have "static_cast_int (Finite (of_int l * of_int r)) = (if int_range (l * r) then Some (l * r) else None)"
    using static_cast_int_of_int [of "l * r"] by simp
  then show ?thesis using OP_MUL by (simp add: evaluate_def truncated_def int_result_def)
next
  case OP_DIV
  show ?thesis
  proof (cases "r = 0")
    case True
    then show ?thesis using OP_DIV
      by (simp add: evaluate_def truncated_def double_div_def isinf_def static_cast_int_def)
  next
    case False
    have "static_cast_int (Finite (of_int l / of_int r)) =
            (if int_range (trunc_div l r) then Some (trunc_div l r) else None)"
      unfolding static_cast_int_def using trunc_quotient [OF False, of l] by (simp add: Let_def)
    then show ?thesis using OP_DIV False
      by (simp add: evaluate_def truncated_def double_div_def isinf_def int_result_def)
  qed
qed (simp_all add: evaluate_def)


lemmas evaluate_pair = evaluate_numbers [of "[]", simplified]

lemmas scan_simps = is_operator_def get_operator_def isdigit_def char_int_def
  get_number_by_str_def reduce_def evaluate_pair int_result_def trunc_div_def int_range_def

text \<open>
  Claim C6. Every binary operation that \<open>evaluate\<close> completes on two numbers yields a
  number token holding an integer \<open>k\<close>, the exact result truncated toward zero: \<open>k\<close> is
  no larger in magnitude than the exact result, less than one away from it, and of the
  same sign. The operands below the two popped ones are left on the stack. In
  particular the formula \<^verbatim>\<open>=7/2\<close> yields 3 and \<^verbatim>\<open>=7/2+1\<close> yields 4, whatever the grid and
  the cache.
\<close>

theorem evaluate_truncates_toward_zero:
  "(evaluate (below @ [T_NUMBER l, T_NUMBER r]) op = Inr (t, toks') \<longrightarrow>
      (\<exists>k. t = T_NUMBER k \<and> toks' = below \<and>
           \<bar>of_int k\<bar> \<le> \<bar>exact_result op l r\<bar> \<and>
           \<bar>exact_result op l r\<bar> < \<bar>of_int k\<bar> + 1 \<and>
           0 \<le> of_int k * exact_result op l r)) \<and>
   parse_expr n tk ''7/2'' h = Some (Inr (T_NUMBER 3), h) \<and>
   parse_expr n tk ''7/2+1'' h = Some (Inr (T_NUMBER 4), h)"
proof (intro conjI impI)
  assume ev: "evaluate (below @ [T_NUMBER l, T_NUMBER r]) op = Inr (t, toks')"
  define x where "x = exact_result op l r"
  define k where "k = (if x < 0 then - \<lfloor>- x\<rfloor> else \<lfloor>x\<rfloor>)"
  have cast: "static_cast_int (Finite x) = (if int_range k then Some k else None)"
    by (simp add: static_cast_int_def k_def Let_def)
  have "t = T_NUMBER k \<and> toks' = below"
  proof (cases op)
    case OP_DIV
    then have "r \<noteq> 0" using ev by (auto simp: evaluate_numbers split: if_splits)
    then show ?thesis using ev cast OP_DIV
      by (auto simp: evaluate_def truncated_def double_div_def isinf_def x_def exact_result_def
          split: option.splits if_splits)
  qed (use ev cast in \<open>auto simp: evaluate_def truncated_def x_def exact_result_def
          split: option.splits if_splits\<close>)
  moreover have "\<bar>of_int k\<bar> \<le> \<bar>x\<bar>" "\<bar>x\<bar> < \<bar>of_int k\<bar> + 1" "0 \<le> of_int k * x"
    unfolding k_def by (rule trunc_props)+
  ultimately show "\<exists>k. t = T_NUMBER k \<and> toks' = below \<and>
           \<bar>of_int k\<bar> \<le> \<bar>exact_result op l r\<bar> \<and>
           \<bar>exact_result op l r\<bar> < \<bar>of_int k\<bar> + 1 \<and>
           0 \<le> of_int k * exact_result op l r"
    unfolding x_def by blast
qed (simp_all add: scan_simps)

theorem evaluate_truncates_toward_zero_witness:
  "evaluate ([] @ [T_NUMBER (- 7), T_NUMBER 2]) OP_DIV = Inr (T_NUMBER (- 3), []) \<and>
   (\<exists>k. T_NUMBER (- 3) = T_NUMBER k \<and> [] = ([] :: Token list) \<and>
        \<bar>of_int k\<bar> \<le> \<bar>exact_result OP_DIV (- 7) 2\<bar> \<and>
        \<bar>exact_result OP_DIV (- 7) 2\<bar> < \<bar>of_int k\<bar> + 1 \<and>
        0 \<le> of_int k * exact_result OP_DIV (- 7) 2)"
proof -
  have ev: "evaluate ([] @ [T_NUMBER (- 7), T_NUMBER 2]) OP_DIV = Inr (T_NUMBER (- 3), [])"
    by (simp add: evaluate_pair int_result_def trunc_div_def int_range_def)
  from evaluate_truncates_toward_zero [of "[]" "- 7" 2 OP_DIV "T_NUMBER (- 3)" "[]"] ev
  show ?thesis by blast
qed

subsection \<open>Cell identities\<close>

text \<open>
  For the columns 0 to 25 the identity is the capital letter followed by the row number
  counted from one, and in a grid of at most 26 columns \<open>get_col_by_char\<close> inverts it.
\<close>

lemma get_cell_by_coords_upper:
  "col < 26 \<Longrightarrow> get_cell_by_coords (row, col) = to_char (65 + col) # to_string (row + 1)"
  by (simp add: get_cell_by_coords_def)

lemma of_char_int_bounds: "0 \<le> (of_char c :: int) \<and> (of_char c :: int) < 256"
proof -
  have "(of_char c :: int) = int (of_char c :: nat)" by (simp add: of_nat_of_char)
  moreover have "(of_char c :: nat) < 256" by simp
  ultimately show ?thesis by linarith
qed

lemma to_char_char_int: "0 \<le> char_int c \<Longrightarrow> to_char (char_int c) = c"
  using of_char_int_bounds [of c] unfolding to_char_def char_int_def Let_def
  by (auto split: if_splits)

lemma to_short_small: "- 32768 \<le> i \<Longrightarrow> i < 32768 \<Longrightarrow> to_short i = i"
proof (cases "0 \<le> i")
  case True
  assume "i < 32768"
  with True have "i mod 65536 = i" by simp
  then show ?thesis using \<open>i < 32768\<close> by (simp add: to_short_def)
next
  case False
  assume "- 32768 \<le> i"
  with False have "(i + 65536) mod 65536 = i + 65536" by (intro mod_pos_pos_trivial) simp_all
  then have "i mod 65536 = i + 65536" by simp
  then show ?thesis using False \<open>- 32768 \<le> i\<close> by (simp add: to_short_def)
qed

lemma get_col_by_char_inverse_upper:
  assumes "m_cols tk \<le> 26" "is_ref_candidate tk c"
  shows "get_cell_by_coords (row, get_col_by_char tk c) = c # to_string (row + 1)"
proof -
  from assms have c: "65 \<le> char_int c" "char_int c \<le> 90"
    by (auto simp: is_ref_candidate_def)
  then have col: "get_col_by_char tk c = char_int c - 65"
    using assms(1) by (simp add: get_col_by_char_def to_short_small)
  have "to_char (65 + (char_int c - 65)) = c"
    using to_char_char_int [of c] c by simp
  then show ?thesis using c col by (simp add: get_cell_by_coords_upper)
qed

text \<open>
  Claim C1 fails on the second block of columns. For column 26 the code adds the
  column to the character \<^verbatim>\<open>'a'\<close> without subtracting 26, so the identity of the cell in
  row 0 starts with the character 123 (an opening brace), not with \<^verbatim>\<open>a\<close>. In a grid of
  27 columns the letter \<^verbatim>\<open>a\<close> is a valid reference letter, \<open>get_col_by_char\<close> maps it to
  column 0, and the identity of that column starts with \<^verbatim>\<open>A\<close>: going from the letter
  to the column and back does not return the letter.
\<close>

theorem get_cell_by_coords_second_block:
  "get_cell_by_coords (0, 26) = [CHR 0x7B, CHR ''1''] \<and>
   get_cell_by_coords (0, 26) \<noteq> ''a1'' \<and>
   is_ref_candidate \<lparr>m_cols = 27, m_rows = 1, m_table = [], m_expressions = []\<rparr> CHR ''a'' \<and>
   get_cell_by_coords
     (0, get_col_by_char \<lparr>m_cols = 27, m_rows = 1, m_table = [], m_expressions = []\<rparr> CHR ''a'') = ''A1''"
  by code_simp

subsection \<open>Division by zero\<close>

text \<open>
  A non-zero dividend over zero gives an infinity, and \<open>evaluate\<close> throws
  \<^verbatim>\<open>#E_INFINITE\<close>; so does the formula \<^verbatim>\<open>=5/0\<close>.
\<close>

lemma division_by_zero_nonzero_dividend:
  "l \<noteq> 0 \<Longrightarrow> evaluate (below @ [T_NUMBER l, T_NUMBER 0]) OP_DIV = Inl (Domain_error ''#E_INFINITE'')"
  by (simp add: evaluate_numbers)

lemma five_by_zero: "parse_expr n tk ''5/0'' h = Some (Inl (Domain_error ''#E_INFINITE''), h)"
  by (simp add: scan_simps)

text \<open>
  Claim C2 fails for a zero dividend. \<open>0 / 0\<close> is a NaN, for which \<^verbatim>\<open>isinf\<close> is false:
  no exception is thrown, and the cast of the NaN to \<^verbatim>\<open>int\<close> is undefined behaviour.
  The formula \<^verbatim>\<open>=0/0\<close> reaches this point.
\<close>

theorem division_zero_by_zero:
  "evaluate [T_NUMBER 0, T_NUMBER 0] OP_DIV = Inl Undefined_behaviour \<and>
   parse_expr n tk ''0/0'' h = Some (Inl Undefined_behaviour, h)"
  by (simp add: scan_simps)

subsection \<open>Characters of a formula\<close>

lemma is_operator_char_int: "is_operator c \<Longrightarrow> char_int c < 48"
  by (auto simp: is_operator_def get_operator_def char_int_def split: if_splits)

lemma is_operator_not_digit: "is_operator c \<Longrightarrow> \<not> isdigit c"
  using is_operator_char_int [of c] by (simp add: isdigit_def)

lemma is_operator_oper: "is_operator c \<Longrightarrow> get_operator c \<noteq> OP_NONE \<and> get_operator c \<noteq> OP_UNKNOWN"
  by (auto simp: is_operator_def get_operator_def)

lemma is_ref_candidate_char: "is_ref_candidate tk c \<Longrightarrow> \<not> is_operator c \<and> \<not> isdigit c"
  using is_operator_char_int [of c] by (auto simp: is_ref_candidate_def isdigit_def)

subsection \<open>Number literals in a formula\<close>

lemma digits_grow:
  "list_all isdigit ds \<Longrightarrow> 0 \<le> num \<Longrightarrow> num \<le> foldl (\<lambda>num c. char_int c - 48 + num * 10) num ds"
proof (induction ds arbitrary: num)
  case Nil
  then show ?case by simp
next
  case (Cons d ds)
  from Cons.prems have d: "48 \<le> char_int d" by (simp add: isdigit_def)
  with Cons.prems have "0 \<le> char_int d - 48 + num * 10" "num \<le> char_int d - 48 + num * 10" by simp_all
  moreover from Cons.prems have "list_all isdigit ds" by simp
  ultimately have "char_int d - 48 + num * 10
      \<le> foldl (\<lambda>num c. char_int c - 48 + num * 10) (char_int d - 48 + num * 10) ds"
    by (intro Cons.IH)
  with \<open>num \<le> char_int d - 48 + num * 10\<close> show ?case by simp
qed

lemma get_number_by_str_loop_digits:
  assumes "list_all isdigit ds" "ds \<noteq> []" "0 \<le> num"
    and "foldl (\<lambda>num c. char_int c - 48 + num * 10) num ds \<le> 2147483647"
    and "rest = [] \<or> \<not> isdigit (hd rest)"
  shows "get_number_by_str_loop num (ds @ rest) =
           Some (foldl (\<lambda>num c. char_int c - 48 + num * 10) num ds, last ds # rest)"
  using assms
proof (induction ds arbitrary: num)
  case Nil
  then show ?case by simp
next
  case (Cons d ds)
  let ?n = "char_int d - 48 + num * 10"
  from Cons.prems have d: "48 \<le> char_int d" by (simp add: isdigit_def)
  from Cons.prems have ds: "list_all isdigit ds" by simp
  from d Cons.prems have n0: "0 \<le> ?n" "num * 10 \<le> ?n" "0 \<le> num * 10" by simp_all
  have "?n \<le> foldl (\<lambda>num c. char_int c - 48 + num * 10) ?n ds"
    using ds n0(1) by (rule digits_grow)
  with Cons.prems(4) have nmax: "?n \<le> 2147483647" by simp
  with n0 have range: "int_range (num * 10)" "int_range ?n" by (simp_all add: int_range_def)
  show ?case
  proof (cases ds)
    case Nil
    with range Cons.prems(5) show ?thesis by auto
  next
    case (Cons e es)
    with ds have "isdigit e" by simp
    moreover have "get_number_by_str_loop ?n (ds @ rest) =
        Some (foldl (\<lambda>num c. char_int c - 48 + num * 10) ?n ds, last ds # rest)"
      using ds Cons n0(1) Cons.prems(4,5) by (intro Cons.IH) simp_all
    ultimately show ?thesis using range Cons by simp
  qed
qed

lemma get_number_by_str_literal:
  assumes "literal ds" "rest = [] \<or> \<not> isdigit (hd rest)"
  shows "get_number_by_str (ds @ rest) = Some (dec_value ds, last ds # rest)"
  using assms get_number_by_str_loop_digits [of ds 0 rest]
  by (simp add: literal_def get_number_by_str_def dec_value_def)

lemma evaluate_leaves_below:
  "evaluate toks op = Inr (t, toks') \<Longrightarrow> toks' = butlast (butlast toks)"
  unfolding evaluate_def truncated_def
  by (cases toks rule: rev_cases; cases "butlast toks" rule: rev_cases)
     (auto simp: Let_def butlast_append split: list.splits Token.splits oper.splits option.splits if_splits)

subsection \<open>The branches of \<open>parse_expr_loop\<close> and \<open>parse_reference\<close>\<close>

declare parse_expr.simps [simp del] parse_expr_loop.simps(2) [simp del] parse_reference.simps [simp del]

lemma loop_operator:
  "is_operator c \<Longrightarrow>
   parse_expr_loop n tk (c # rest) toks op tok h =
     (if op \<noteq> OP_NONE \<or> toks = [] then Some (Inl (Domain_error ''#E_UNEXP_SYMBOL''), h)
      else parse_expr_loop n tk rest toks (get_operator c) tok h)"
  by (simp add: parse_expr_loop.simps)

lemma loop_digit:
  "isdigit c \<Longrightarrow>
   parse_expr_loop n tk (c # rest) toks op tok h =
     (case get_number_by_str (c # rest) of
        None \<Rightarrow> Some (Inl Undefined_behaviour, h)
      | Some (num, it) \<Rightarrow>
          (case reduce (toks @ [T_NUMBER num]) op tok of
             Inl e \<Rightarrow> Some (Inl e, h)
           | Inr (toks', op', tok') \<Rightarrow> parse_expr_loop n tk (tl it) toks' op' tok' h))"
  using is_operator_not_digit [of c] by (auto simp: parse_expr_loop.simps)

lemma loop_reference:
  "is_ref_candidate tk c \<Longrightarrow>
   parse_expr_loop n tk (c # rest) toks op tok h =
     (case get_number_by_str rest of
        None \<Rightarrow> Some (Inl Undefined_behaviour, h)
      | Some (num, it) \<Rightarrow>
          if ref_row num + 1 > m_rows tk \<or> ref_row num < 0
          then Some (Inl (Domain_error ''#E_INVALID_REF''), h)
          else
            (case resolve_cell n tk (ref_row num, get_col_by_char tk c) h of
               None \<Rightarrow> None
             | Some (Inl e, h') \<Rightarrow> Some (Inl e, h')
             | Some (Inr t, h') \<Rightarrow>
                 (case reduce (toks @ [t]) op t of
                    Inl e \<Rightarrow> Some (Inl e, h')
                  | Inr (toks', op', tok') \<Rightarrow> parse_expr_loop n tk (tl it) toks' op' tok' h')))"
  using is_ref_candidate_char [of tk c]
  unfolding resolve_cell_def ref_row_def
  by (simp add: parse_expr_loop.simps Let_def split: option.splits)

lemma loop_other:
  "\<not> is_operator c \<Longrightarrow> \<not> isdigit c \<Longrightarrow> \<not> is_ref_candidate tk c \<Longrightarrow>
   parse_expr_loop n tk (c # rest) toks op tok h = Some (Inl (Domain_error ''#E_UNEXP_SYMB''), h)"
  by (simp add: parse_expr_loop.simps)

lemma reference_formula:
  assumes "table_at tk (fst coords) (snd coords) = Some s"
    and "cache_find h (get_cell_by_coords coords) = None" and "is_expression s"
  shows "parse_reference n tk coords h =
     (case n of
        0 \<Rightarrow> None
      | Suc m \<Rightarrow>
          (case parse_expr m tk (tl s) (emplace (get_cell_by_coords coords) h) of
             None \<Rightarrow> None
           | Some (Inl (Domain_error msg), h') \<Rightarrow>
               Some (Inr (T_STRING msg), assign (get_cell_by_coords coords) (T_STRING msg) h')
           | Some (Inl e, h') \<Rightarrow> Some (Inl e, h')
           | Some (Inr tok, h') \<Rightarrow> Some (Inr tok, assign (get_cell_by_coords coords) tok h')))"
  using assms by (simp add: parse_reference.simps Let_def)

lemma reference_plain:
  assumes "table_at tk (fst coords) (snd coords) = Some s"
    and "cache_find h (get_cell_by_coords coords) = None" and "\<not> is_expression s"
  shows "parse_reference n tk coords h =
     (if is_number s then
        (case stoi s of
           Inl e \<Rightarrow> Some (Inl e, emplace (get_cell_by_coords coords) h)
         | Inr v \<Rightarrow> Some (Inr (T_NUMBER v),
             assign (get_cell_by_coords coords) (T_NUMBER v) (emplace (get_cell_by_coords coords) h)))
      else if is_string_literal s then
        Some (Inr (T_STRING (tl s)),
          assign (get_cell_by_coords coords) (T_STRING (tl s)) (emplace (get_cell_by_coords coords) h))
      else if s = [] then
        Some (Inr (T_STRING []),
          assign (get_cell_by_coords coords) (T_STRING []) (emplace (get_cell_by_coords coords) h))
      else Some (Inl (Domain_error ''E_WRONG_REF''), emplace (get_cell_by_coords coords) h))"
  using assms by (simp add: parse_reference.simps Let_def)

lemma reference_present:
  assumes "table_at tk (fst coords) (snd coords) = Some s"
    and "cache_find h (get_cell_by_coords coords) \<noteq> None"
  shows "parse_reference n tk coords h =
           Some (Inl (Logic_error ''Internal error: parse_reference()''), h)"
  using assms by (simp add: parse_reference.simps Let_def)

lemma reference_outside:
  assumes "table_at tk (fst coords) (snd coords) = None"
  shows "parse_reference n tk coords h = Some (Inl Undefined_behaviour, h)"
  using assms by (simp add: parse_reference.simps)

lemma parse_induct [case_names expr nil operator digit reference other cell]:
  fixes tk :: Tokenizer
  assumes expr: "\<And>n str h. Q n str [] OP_NONE T_UNDEFINED h \<Longrightarrow> P n str h"
    and nil: "\<And>n toks op tok h. Q n [] toks op tok h"
    and operator: "\<And>n c rest toks op tok h.
          is_operator c \<Longrightarrow>
          (op = OP_NONE \<Longrightarrow> toks \<noteq> [] \<Longrightarrow> Q n rest toks (get_operator c) tok h) \<Longrightarrow>
          Q n (c # rest) toks op tok h"
    and digit: "\<And>n c rest toks op tok h.
          isdigit c \<Longrightarrow>
          (\<And>num it toks' op' tok'.
              get_number_by_str (c # rest) = Some (num, it) \<Longrightarrow>
              reduce (toks @ [T_NUMBER num]) op tok = Inr (toks', op', tok') \<Longrightarrow>
              Q n (tl it) toks' op' tok' h) \<Longrightarrow>
          Q n (c # rest) toks op tok h"
    and reference: "\<And>n c rest toks op tok h.
          is_ref_candidate tk c \<Longrightarrow>
          (\<And>num it.
              get_number_by_str rest = Some (num, it) \<Longrightarrow>
              0 \<le> ref_row num \<Longrightarrow> ref_row num < m_rows tk \<Longrightarrow>
              cache_find h (get_cell_by_coords (ref_row num, get_col_by_char tk c)) = None \<Longrightarrow>
              R n (ref_row num, get_col_by_char tk c) h) \<Longrightarrow>
          (\<And>num it t h1 toks' op' tok'.
              get_number_by_str rest = Some (num, it) \<Longrightarrow>
              0 \<le> ref_row num \<Longrightarrow> ref_row num < m_rows tk \<Longrightarrow>
              resolve_cell n tk (ref_row num, get_col_by_char tk c) h = Some (Inr t, h1) \<Longrightarrow>
              reduce (toks @ [t]) op t = Inr (toks', op', tok') \<Longrightarrow>
              Q n (tl it) toks' op' tok' h1) \<Longrightarrow>
          Q n (c # rest) toks op tok h"
    and other: "\<And>n c rest toks op tok h.
          \<not> is_operator c \<Longrightarrow> \<not> isdigit c \<Longrightarrow> \<not> is_ref_candidate tk c \<Longrightarrow>
          Q n (c # rest) toks op tok h"
    and cell: "\<And>n coords h.
          (\<And>s m. table_at tk (fst coords) (snd coords) = Some s \<Longrightarrow>
              cache_find h (get_cell_by_coords coords) = None \<Longrightarrow>
              is_expression s \<Longrightarrow> n = Suc m \<Longrightarrow>
              P m (tl s) (emplace (get_cell_by_coords coords) h)) \<Longrightarrow>
          R n coords h"
  shows "P n str h" and "Q n str toks op tok h" and "R n coords h"
proof -
  have "P n str h" and "Q n str toks op tok h" and "R n coords h"
    if "tk' = tk" for tk'
    using that
  proof (induction n tk' str h and n tk' str toks op tok h and n tk' coords h
      rule: parse_expr_parse_expr_loop_parse_reference.induct)
    case (1 n tk' str h)
    then show ?case by (intro expr) simp
  next
    case (2 n tk' toks op tok h)
    show ?case by (rule nil)
  next
    case (3 n tk' c rest toks op tok h)
    note tk = \<open>tk' = tk\<close>
    show ?case
    proof (cases "is_operator c")
      case True
      then show ?thesis using 3(1) tk by (intro operator) simp_all
    next
      case nop: False
      show ?thesis
      proof (cases "isdigit c")
        case True
        show ?thesis
        proof (rule digit [OF True])
          fix num it toks' op' tok'
          assume a: "get_number_by_str (c # rest) = Some (num, it)"
            and b: "reduce (toks @ [T_NUMBER num]) op tok = Inr (toks', op', tok')"
          show "Q n (tl it) toks' op' tok' h"
            using 3(2) [OF nop True a refl b refl refl tk] .
        qed
      next
        case nd: False
        show ?thesis
        proof (cases "is_ref_candidate tk c")
          case False
          with nop nd show ?thesis by (intro other)
        next
          case True
          then have True': "is_ref_candidate tk' c" using tk by simp
          show ?thesis
          proof (rule reference [OF True])
            fix num it
            assume a: "get_number_by_str rest = Some (num, it)"
              and r: "0 \<le> ref_row num" "ref_row num < m_rows tk"
              and absent: "cache_find h (get_cell_by_coords (ref_row num, get_col_by_char tk c)) = None"
            have "\<not> (m_rows tk' < to_short (num - 1) + 1 \<or> to_short (num - 1) < 0)"
              using r tk by (simp add: ref_row_def)
            from 3(3) [OF nop nd True' a refl refl refl this] absent tk
            show "R n (ref_row num, get_col_by_char tk c) h"
              by (simp add: ref_row_def)
          next
            fix num it t h1 toks' op' tok'
            assume a: "get_number_by_str rest = Some (num, it)"
              and r: "0 \<le> ref_row num" "ref_row num < m_rows tk"
              and res: "resolve_cell n tk (ref_row num, get_col_by_char tk c) h = Some (Inr t, h1)"
              and red: "reduce (toks @ [t]) op t = Inr (toks', op', tok')"
            have ok: "\<not> (m_rows tk' < to_short (num - 1) + 1 \<or> to_short (num - 1) < 0)"
              using r tk by (simp add: ref_row_def)
            have res': "(case cache_find h (get_cell_by_coords (to_short (num - 1), get_col_by_char tk' c)) of
                     None \<Rightarrow> parse_reference n tk' (to_short (num - 1), get_col_by_char tk' c) h
                   | Some t \<Rightarrow>
                       if is_incomplete t then Some (Inl (Domain_error ''#E_CROSS_REF''), h)
                       else Some (Inr t, h)) = Some (Inr t, h1)"
              using res unfolding resolve_cell_def ref_row_def tk .
            from 3(4) [OF nop nd True' a refl refl refl ok res' refl refl red refl refl tk]
            show "Q n (tl it) toks' op' tok' h1" .
          qed
        qed
      qed
    qed
  next
    case (4 n tk' coords h)
    note tk = \<open>tk' = tk\<close>
    show ?case
    proof (rule cell)
      fix s m
      assume a: "table_at tk (fst coords) (snd coords) = Some s"
        and b: "cache_find h (get_cell_by_coords coords) = None"
        and c: "is_expression s" and d: "n = Suc m"
      have a': "table_at tk' (fst coords) (snd coords) = Some s" using a tk by simp
      have b': "\<not> cache_find h (get_cell_by_coords coords) \<noteq> None" using b by simp
      from 4(1) [OF a' refl b' c d tk] show "P m (tl s) (emplace (get_cell_by_coords coords) h)" .
    qed
  qed
  then show "P n str h" and "Q n str toks op tok h" and "R n coords h" by simp_all
qed

subsection \<open>The cache only grows\<close>

lemma resolve_cell_grows:
  assumes "resolve_cell n tk coords h = Some (x, h1)"
    and "cache_find h (get_cell_by_coords coords) = None \<Longrightarrow> grows h h1"
  shows "grows h h1"
  using assms by (auto simp: resolve_cell_def intro: grows_refl split: option.splits if_splits)

lemma parse_grows:
  "parse_expr n tk str h = Some (r, h') \<longrightarrow> grows h h'"
  "parse_expr_loop n tk str toks op tok h = Some (r2, h') \<longrightarrow> grows h h'"
  "parse_reference n tk coords h = Some (r, h') \<longrightarrow> grows h h'"
proof (induction n str h and n str toks op tok h and n coords h
    arbitrary: r h' and r2 h' and r h' rule: parse_induct [where tk = tk])
  case (expr n str h)
  then show ?case
    by (auto simp: parse_expr.simps split: option.splits sum.splits prod.splits)
next
  case (nil n toks op tok h)
  show ?case by (auto intro: grows_refl)
next
  case (operator n c rest toks op tok h)
  then show ?case by (auto simp: loop_operator intro: grows_refl)
next
  case (digit n c rest toks op tok h)
  then show ?case
    by (auto simp: loop_digit intro: grows_refl split: option.splits sum.splits prod.splits)
next
  case (reference n c rest toks op tok h)
  show ?case
  proof
    assume run: "parse_expr_loop n tk (c # rest) toks op tok h = Some (r2, h')"
    show "grows h h'"
    proof (cases "get_number_by_str rest")
      case None
      with run reference(1) show ?thesis by (auto simp: loop_reference intro: grows_refl)
    next
      case (Some p)
      obtain num it where p: "p = (num, it)" by (cases p)
      show ?thesis
      proof (cases "ref_row num + 1 > m_rows tk \<or> ref_row num < 0")
        case True
        with run reference(1) Some p show ?thesis by (auto simp: loop_reference intro: grows_refl)
      next
        case False
        then have row: "0 \<le> ref_row num" "ref_row num < m_rows tk" by simp_all
        let ?co = "(ref_row num, get_col_by_char tk c)"
        from run reference(1) Some p False obtain x h1 where
          res: "resolve_cell n tk ?co h = Some (x, h1)"
          by (auto simp: loop_reference split: option.splits)
        have g1: "grows h h1"
          using res
        proof (rule resolve_cell_grows)
          assume "cache_find h (get_cell_by_coords ?co) = None"
          then have "parse_reference n tk ?co h = Some (x, h1) \<longrightarrow> grows h h1"
            using Some p row by (intro reference(2)) simp_all
          moreover have "parse_reference n tk ?co h = Some (x, h1)"
            using res \<open>cache_find h (get_cell_by_coords ?co) = None\<close> by (simp add: resolve_cell_def)
          ultimately show "grows h h1" by simp
        qed
        show ?thesis
        proof (cases x)
          case (Inl e)
          with run reference(1) Some p False res g1 show ?thesis by (simp add: loop_reference)
        next
          case (Inr t)
          show ?thesis
          proof (cases "reduce (toks @ [t]) op t")
            case (Inl e)
            with run reference(1) Some p False res g1 Inr show ?thesis by (simp add: loop_reference)
          next
            case red: (Inr st)
            obtain toks' op' tok' where st: "st = (toks', op', tok')" by (cases st)
            have "parse_expr_loop n tk (tl it) toks' op' tok' h1 = Some (r2, h')"
              using run reference(1) Some p False res Inr red st by (simp add: loop_reference)
            moreover have "parse_expr_loop n tk (tl it) toks' op' tok' h1 = Some (r2, h') \<longrightarrow> grows h1 h'"
              using Some p row res Inr red st by (intro reference(3)) simp_all
            ultimately have "grows h1 h'" by simp
            with g1 show ?thesis by (rule grows_trans)
          qed
        qed
      qed
    qed
  qed
next
  case (other n c rest toks op tok h)
  then show ?case by (auto simp: loop_other intro: grows_refl)
next
  case (cell n coords h)
  show ?case
  proof
    assume run: "parse_reference n tk coords h = Some (r, h')"
    let ?k = "get_cell_by_coords coords"
    show "grows h h'"
    proof (cases "table_at tk (fst coords) (snd coords)")
      case None
      with run show ?thesis by (auto simp: reference_outside intro: grows_refl)
    next
      case (Some s)
      show ?thesis
      proof (cases "cache_find h ?k = None")
        case False
        with run Some show ?thesis by (auto simp: reference_present intro: grows_refl)
      next
        case absent: True
        have op: "grows h (Reserve ?k # h)" using absent by (rule grows_open)
        have cl: "grows h (Commit ?k t # Reserve ?k # h)" for t
          using absent grows_refl by (rule grows_close)
        show ?thesis
        proof (cases "is_expression s")
          case False
          from run show ?thesis
            unfolding reference_plain [OF Some absent False] emplace_def assign_def
            using op cl by (auto split: if_splits sum.splits)
        next
          case True
          from run obtain m where n: "n = Suc m"
            unfolding reference_formula [OF Some absent True] by (cases n) auto
          have inner: "grows (Reserve ?k # h) h1"
            if "parse_expr m tk (tl s) (emplace ?k h) = Some (x, h1)" for x h1
            using cell [OF Some absent True n, of x h1] that by (simp add: emplace_def)
          from run show ?thesis
            unfolding reference_formula [OF Some absent True] n
            by (auto simp: assign_def split: option.splits sum.splits exn.splits
                intro: grows_close [OF absent inner] grows_trans [OF op inner])
        qed
      qed
    qed
  qed
qed

lemma reserves_of_append [simp]: "reserves_of (a @ b) = reserves_of a @ reserves_of b"
  by (induction a rule: reserves_of.induct) simp_all

lemma commits_of_append [simp]: "commits_of (a @ b) = commits_of a @ commits_of b"
  by (induction a rule: commits_of.induct) simp_all



lemma wf_log_commits: "wf_log h \<Longrightarrow> set (commits_of h) \<subseteq> set (reserves_of h)"
  by (induction h rule: wf_log.induct) auto



lemma grows_find: "grows h h' \<Longrightarrow> cache_find h k \<noteq> None \<Longrightarrow> cache_find h' k \<noteq> None"
  by (induction rule: grows.induct) (auto split: if_splits)

lemma events_on_Nil [simp]: "events_on k [] = []"
  by (simp add: events_on_def)






subsection \<open>Termination: \<open>run\<close> returns, whatever the grid\<close>

text \<open>
  Each nested evaluation reserves a cell that a reference can name and that was absent,
  so a depth bound of at least the number of such cells is never reached
  (\<open>parse_returns\<close>), and a larger bound does not change a result (\<open>parse_fuel\<close>). Hence
  \<open>run\<close> always returns (\<open>run_returns\<close>), with the result of every larger bound
  (\<open>run_fuel_enough\<close>).
\<close>

lemma finite_cells: "finite (cells tk)"
  by (simp add: cells_def)

lemma card_cells: "card (cells tk) = fuel_bound tk"
  by (simp add: cells_def fuel_bound_def)

lemma finite_unresolved: "finite (unresolved tk h)"
  using finite_cells [of tk] by (simp add: unresolved_def)

lemma card_unresolved_le: "card (unresolved tk h) \<le> fuel_bound tk"
proof -
  have "unresolved tk h \<subseteq> cells tk" by (auto simp: unresolved_def)
  then have "card (unresolved tk h) \<le> card (cells tk)" using finite_cells by (rule card_mono [rotated])
  then show ?thesis by (simp add: card_cells)
qed

lemma unresolved_grows: "grows h h' \<Longrightarrow> card (unresolved tk h') \<le> card (unresolved tk h)"
proof -
  assume g: "grows h h'"
  have "cache_find h k = None" if "cache_find h' k = None" for k
    using grows_find [OF g, of k] that by blast
  then have "unresolved tk h' \<subseteq> unresolved tk h"
    by (auto simp: unresolved_def)
  then show ?thesis using finite_unresolved by (rule card_mono [rotated])
qed

lemma unresolved_reserve:
  assumes "p \<in> cells tk" "cache_find h (get_cell_by_coords p) = None" "card (unresolved tk h) \<le> n"
  shows "\<exists>m. n = Suc m \<and> card (unresolved tk (Reserve (get_cell_by_coords p) # h)) \<le> m"
proof -
  from assms(1,2) have mem: "p \<in> unresolved tk h" by (simp add: unresolved_def)
  have sub: "unresolved tk (Reserve (get_cell_by_coords p) # h) \<subseteq> unresolved tk h - {p}"
    by (auto simp: unresolved_def split: if_splits)
  have "card (unresolved tk (Reserve (get_cell_by_coords p) # h)) \<le> card (unresolved tk h - {p})"
    using sub finite_unresolved [of tk h] by (intro card_mono) simp_all
  also have "\<dots> = card (unresolved tk h) - 1" using mem finite_unresolved by simp
  finally have le: "card (unresolved tk (Reserve (get_cell_by_coords p) # h)) \<le> card (unresolved tk h) - 1" .
  from mem finite_unresolved [of tk h] have "0 < card (unresolved tk h)"
    by (auto simp: card_gt_0_iff)
  with assms(3) obtain m where "n = Suc m" by (cases n) auto
  with le assms(3) show ?thesis by auto
qed

lemma ref_col_range:
  assumes "is_ref_candidate tk c"
  shows "0 \<le> get_col_by_char tk c \<and> get_col_by_char tk c < 26"
proof (cases "m_cols tk \<le> 26")
  case True
  with assms have "65 \<le> char_int c" "char_int c \<le> 90" by (auto simp: is_ref_candidate_def)
  then show ?thesis using True by (simp add: get_col_by_char_def to_short_small)
next
  case False
  with assms have "97 \<le> char_int c" "char_int c \<le> 122" "m_cols tk \<le> 52"
    by (auto simp: is_ref_candidate_def)
  then show ?thesis using False by (simp add: get_col_by_char_def to_short_small)
qed

lemma parse_returns:
  "card (unresolved tk h) \<le> n \<longrightarrow> parse_expr n tk str h \<noteq> None"
  "card (unresolved tk h) \<le> n \<longrightarrow> parse_expr_loop n tk str toks op tok h \<noteq> None"
  "card (unresolved tk h) \<le> n \<and> coords \<in> cells tk \<longrightarrow> parse_reference n tk coords h \<noteq> None"
proof (induction n str h and n str toks op tok h and n coords h rule: parse_induct [where tk = tk])
  case (expr n str h)
  then show ?case
    by (auto simp: parse_expr.simps split: option.splits sum.splits prod.splits)
next
  case (nil n toks op tok h)
  show ?case by simp
next
  case (operator n c rest toks op tok h)
  then show ?case by (auto simp: loop_operator)
next
  case (digit n c rest toks op tok h)
  then show ?case
    by (auto simp: loop_digit split: option.splits sum.splits prod.splits)
next
  case (reference n c rest toks op tok h)
  show ?case
  proof
    assume fuel: "card (unresolved tk h) \<le> n"
    show "parse_expr_loop n tk (c # rest) toks op tok h \<noteq> None"
    proof (cases "get_number_by_str rest")
      case None
      with reference(1) show ?thesis by (simp add: loop_reference)
    next
      case (Some p)
      obtain num it where p: "p = (num, it)" by (cases p)
      show ?thesis
      proof (cases "ref_row num + 1 > m_rows tk \<or> ref_row num < 0")
        case True
        with reference(1) Some p show ?thesis by (auto simp: loop_reference)
      next
        case False
        then have row: "0 \<le> ref_row num" "ref_row num < m_rows tk" by simp_all
        let ?co = "(ref_row num, get_col_by_char tk c)"
        have co: "?co \<in> cells tk"
          using row ref_col_range [OF reference(1)] by (simp add: cells_def)
        have some: "resolve_cell n tk ?co h \<noteq> None"
        proof (cases "cache_find h (get_cell_by_coords ?co)")
          case None
          then have "parse_reference n tk ?co h \<noteq> None"
            using reference(2) [OF Some [unfolded p] row None] fuel co by simp
          with None show ?thesis by (simp add: resolve_cell_def)
        next
          case (Some t)
          then show ?thesis by (simp add: resolve_cell_def)
        qed
        then obtain x h1 where res: "resolve_cell n tk ?co h = Some (x, h1)" by auto
        have g1: "grows h h1"
          using res by (rule resolve_cell_grows) (use res parse_grows(3) in \<open>simp add: resolve_cell_def\<close>)
        have fuel1: "card (unresolved tk h1) \<le> n"
          using unresolved_grows [OF g1, of tk] fuel by simp
        show ?thesis
        proof (cases x)
          case (Inl e)
          with reference(1) Some p False res show ?thesis by (simp add: loop_reference)
        next
          case (Inr t)
          show ?thesis
          proof (cases "reduce (toks @ [t]) op t")
            case (Inl e)
            with reference(1) Some p False res Inr show ?thesis by (simp add: loop_reference)
          next
            case red: (Inr st)
            obtain toks' op' tok' where st: "st = (toks', op', tok')" by (cases st)
            have "parse_expr_loop n tk (tl it) toks' op' tok' h1 \<noteq> None"
              using reference(3) [OF Some [unfolded p] row res [unfolded Inr] red [unfolded st]] fuel1
              by simp
            then show ?thesis
              using reference(1) Some p False res Inr red st by (simp add: loop_reference)
          qed
        qed
      qed
    qed
  qed
next
  case (other n c rest toks op tok h)
  then show ?case by (simp add: loop_other)
next
  case (cell n coords h)
  show ?case
  proof
    assume a: "card (unresolved tk h) \<le> n \<and> coords \<in> cells tk"
    let ?k = "get_cell_by_coords coords"
    show "parse_reference n tk coords h \<noteq> None"
    proof (cases "table_at tk (fst coords) (snd coords)")
      case None
      then show ?thesis by (simp add: reference_outside)
    next
      case (Some s)
      show ?thesis
      proof (cases "cache_find h ?k = None")
        case False
        with Some show ?thesis by (simp add: reference_present)
      next
        case absent: True
        show ?thesis
        proof (cases "is_expression s")
          case False
          show ?thesis
            unfolding reference_plain [OF Some absent False]
            by (auto split: sum.splits)
        next
          case True
          from a absent obtain m where n: "n = Suc m"
            and m: "card (unresolved tk (Reserve ?k # h)) \<le> m"
            using unresolved_reserve [of coords tk h n] by blast
          have "parse_expr m tk (tl s) (emplace ?k h) \<noteq> None"
            using cell [OF Some absent True n] m by (simp add: emplace_def)
          then show ?thesis
            unfolding reference_formula [OF Some absent True] n
            by (auto split: option.splits sum.splits exn.splits)
        qed
      qed
    qed
  qed
qed

lemma resolve_cell_fuel:
  assumes "resolve_cell n tk coords h = Some x"
    and "cache_find h (get_cell_by_coords coords) = None \<Longrightarrow>
           parse_reference n tk coords h = Some x \<longrightarrow> parse_reference (n + d) tk coords h = Some x"
  shows "resolve_cell (n + d) tk coords h = Some x"
  using assms by (auto simp: resolve_cell_def split: option.splits if_splits)

lemma parse_fuel:
  "parse_expr n tk str h = Some x \<longrightarrow> parse_expr (n + d) tk str h = Some x"
  "parse_expr_loop n tk str toks op tok h = Some x2 \<longrightarrow>
     parse_expr_loop (n + d) tk str toks op tok h = Some x2"
  "parse_reference n tk coords h = Some x \<longrightarrow> parse_reference (n + d) tk coords h = Some x"
proof (induction n str h and n str toks op tok h and n coords h
    arbitrary: x and x2 and x rule: parse_induct [where tk = tk])
  case (expr n str h)
  show ?case
  proof
    assume a: "parse_expr n tk str h = Some x"
    then obtain y where y: "parse_expr_loop n tk str [] OP_NONE T_UNDEFINED h = Some y"
      by (auto simp: parse_expr.simps split: option.splits)
    with expr have "parse_expr_loop (n + d) tk str [] OP_NONE T_UNDEFINED h = Some y" by simp
    with a y show "parse_expr (n + d) tk str h = Some x" by (simp add: parse_expr.simps)
  qed
next
  case (nil n toks op tok h)
  show ?case by simp
next
  case (operator n c rest toks op tok h)
  then show ?case by (auto simp: loop_operator)
next
  case (digit n c rest toks op tok h)
  then show ?case
    by (auto simp: loop_digit split: option.splits sum.splits prod.splits)
next
  case (reference n c rest toks op tok h)
  show ?case
  proof
    assume run: "parse_expr_loop n tk (c # rest) toks op tok h = Some x2"
    show "parse_expr_loop (n + d) tk (c # rest) toks op tok h = Some x2"
    proof (cases "get_number_by_str rest")
      case None
      with run reference(1) show ?thesis by (simp add: loop_reference)
    next
      case (Some p)
      obtain num it where p: "p = (num, it)" by (cases p)
      show ?thesis
      proof (cases "ref_row num + 1 > m_rows tk \<or> ref_row num < 0")
        case True
        with run reference(1) Some p show ?thesis by (auto simp: loop_reference)
      next
        case False
        then have row: "0 \<le> ref_row num" "ref_row num < m_rows tk" by simp_all
        let ?co = "(ref_row num, get_col_by_char tk c)"
        from run reference(1) Some p False obtain y h1 where
          res: "resolve_cell n tk ?co h = Some (y, h1)"
          by (auto simp: loop_reference split: option.splits)
        have res': "resolve_cell (n + d) tk ?co h = Some (y, h1)"
          using res by (rule resolve_cell_fuel) (rule reference(2) [OF Some [unfolded p] row])
        show ?thesis
        proof (cases y)
          case (Inl e)
          with run reference(1) Some p False res res' show ?thesis by (simp add: loop_reference)
        next
          case (Inr t)
          show ?thesis
          proof (cases "reduce (toks @ [t]) op t")
            case (Inl e)
            with run reference(1) Some p False res res' Inr show ?thesis by (simp add: loop_reference)
          next
            case red: (Inr st)
            obtain toks' op' tok' where st: "st = (toks', op', tok')" by (cases st)
            have "parse_expr_loop n tk (tl it) toks' op' tok' h1 = Some x2"
              using run reference(1) Some p False res Inr red st by (simp add: loop_reference)
            then have "parse_expr_loop (n + d) tk (tl it) toks' op' tok' h1 = Some x2"
              using reference(3) [OF Some [unfolded p] row res [unfolded Inr] red [unfolded st]] by simp
            then show ?thesis
              using reference(1) Some p False res' Inr red st by (simp add: loop_reference)
          qed
        qed
      qed
    qed
  qed
next
  case (other n c rest toks op tok h)
  then show ?case by (simp add: loop_other)
next
  case (cell n coords h)
  show ?case
  proof
    assume run: "parse_reference n tk coords h = Some x"
    let ?k = "get_cell_by_coords coords"
    show "parse_reference (n + d) tk coords h = Some x"
    proof (cases "table_at tk (fst coords) (snd coords)")
      case None
      with run show ?thesis by (simp add: reference_outside)
    next
      case (Some s)
      show ?thesis
      proof (cases "cache_find h ?k = None")
        case False
        with run Some show ?thesis by (simp add: reference_present)
      next
        case absent: True
        show ?thesis
        proof (cases "is_expression s")
          case False
          from run show ?thesis
            unfolding reference_plain [OF Some absent False] .
        next
          case True
          from run obtain m where n: "n = Suc m"
            unfolding reference_formula [OF Some absent True] by (cases n) auto
          from run obtain y where y: "parse_expr m tk (tl s) (emplace ?k h) = Some y"
            unfolding reference_formula [OF Some absent True] n by (auto split: option.splits)
          with cell [OF Some absent True n] have y': "parse_expr (m + d) tk (tl s) (emplace ?k h) = Some y"
            by simp
          have nd: "n + d = Suc (m + d)" using n by simp
          from run show ?thesis
            unfolding reference_formula [OF Some absent True] n nd [unfolded n] using y y' by simp
        qed
      qed
    qed
  qed
qed

lemma run_loop_returns:
  "card (unresolved tk h) \<le> n \<Longrightarrow> run_loop n tk exs h diag \<noteq> None"
proof (induction exs arbitrary: h diag)
  case Nil
  show ?case by simp
next
  case (Cons ex exs)
  let ?k = "get_cell_by_coords (m_coords ex)"
  show ?case
  proof (cases "cache_find h ?k = None")
    case False
    with Cons show ?thesis by (simp add: Let_def)
  next
    case absent: True
    have g0: "grows h (Reserve ?k # h)" using absent by (rule grows_open)
    have "card (unresolved tk (Reserve ?k # h)) \<le> n"
      using unresolved_grows [OF g0, of tk] Cons.prems by simp
    then obtain x h1 where p: "parse_expr n tk (m_value ex) (emplace ?k h) = Some (x, h1)"
      using parse_returns(1) [of tk "emplace ?k h" n "m_value ex"] by (auto simp: emplace_def)
    then have "grows (Reserve ?k # h) h1" using parse_grows(1) by (simp add: emplace_def)
    then have g: "grows h (Commit ?k t # h1)" for t using absent by (intro grows_close)
    have "run_loop n tk exs (assign ?k t h1) diag' \<noteq> None" for t diag'
      using unresolved_grows [OF g, of tk t] Cons.prems by (intro Cons.IH) (simp add: assign_def)
    then show ?thesis using absent p
      by (auto simp: Let_def split: sum.splits exn.splits)
  qed
qed

lemma run_loop_fuel:
  "run_loop n tk exs h diag = Some x \<Longrightarrow> run_loop (n + d) tk exs h diag = Some x"
proof (induction exs arbitrary: h diag)
  case Nil
  then show ?case by simp
next
  case (Cons ex exs)
  let ?k = "get_cell_by_coords (m_coords ex)"
  show ?case
  proof (cases "cache_find h ?k = None")
    case False
    with Cons show ?thesis by (simp add: Let_def)
  next
    case absent: True
    from Cons.prems absent obtain y where
      p: "parse_expr n tk (m_value ex) (emplace ?k h) = Some y"
      by (auto simp: Let_def split: option.splits)
    then have p': "parse_expr (n + d) tk (m_value ex) (emplace ?k h) = Some y"
      using parse_fuel(1) by blast
    from Cons.prems absent p p' Cons.IH show ?thesis
      by (auto simp: Let_def split: sum.splits exn.splits prod.splits)
  qed
qed

lemma run_returns: "run tk \<noteq> None"
  unfolding run_def run_fuel_def
  using card_unresolved_le [of tk "[]"] by (rule run_loop_returns)

lemma run_fuel_enough: "fuel_bound tk \<le> n \<Longrightarrow> run_fuel n tk = run tk"
proof -
  assume "fuel_bound tk \<le> n"
  then obtain d where n: "n = fuel_bound tk + d" using le_Suc_ex by blast
  from run_returns obtain x where x: "run tk = Some x" by auto
  then have "run_loop (fuel_bound tk + d) tk (m_expressions tk) [] [] = Some x"
    unfolding run_def run_fuel_def by (rule run_loop_fuel)
  with x n show ?thesis by (simp add: run_fuel_def)
qed

subsection \<open>The example of the source\<close>


lemma display_grid_example:
  "map (\<lambda>e. fst (get_value (m_coords e) log_example)) (m_expressions grid_example) =
     [''-4'', ''4'', ''-16'', ''-4'', ''1'']"
  by code_simp

subsection \<open>Reserve before evaluation, commit once\<close>




lemma resolve_cell_pending:
  "cache_find h (get_cell_by_coords coords) = Some T_UNDEFINED \<Longrightarrow>
     resolve_cell n tk coords h = Some (Inl (Domain_error ''#E_CROSS_REF''), h)"
  by (simp add: resolve_cell_def)

lemma loop_reference_pending:
  assumes "is_ref_candidate tk c" "get_number_by_str rest = Some (num, it)"
    and "0 \<le> ref_row num" "ref_row num < m_rows tk"
    and "cache_find h (get_cell_by_coords (ref_row num, get_col_by_char tk c)) = Some T_UNDEFINED"
  shows "parse_expr_loop n tk (c # rest) toks op tok h =
           Some (Inl (Domain_error ''#E_CROSS_REF''), h)"
  using assms by (simp add: loop_reference resolve_cell_pending)












subsection \<open>A formula with no text\<close>

lemma run_grid_empty_formula:
  "run grid_empty_formula =
     Some (Inr ([Commit ''B1'' (T_STRING ''#E_CROSS_REF''), Reserve ''B1'',
                 Commit ''A1'' T_UNDEFINED, Reserve ''A1''], []))"
  by code_simp

lemma parse_expr_empty: "parse_expr n tk [] h = Some (Inr T_UNDEFINED, h)"
  by (simp add: parse_expr.simps)

lemma parse_expr_reference_pending:
  assumes "is_ref_candidate tk c" "get_number_by_str rest = Some (num, it)"
    and "0 \<le> ref_row num" "ref_row num < m_rows tk"
    and "cache_find h (get_cell_by_coords (ref_row num, get_col_by_char tk c)) = Some T_UNDEFINED"
  shows "parse_expr n tk (c # rest) h = Some (Inl (Domain_error ''#E_CROSS_REF''), h)"
  using loop_reference_pending [OF assms] by (simp add: parse_expr.simps)

lemma parse_expr_literal_then_pending:
  assumes "literal ds" "is_operator oc"
    and "is_ref_candidate tk c" "get_number_by_str rest = Some (num, it)"
    and "0 \<le> ref_row num" "ref_row num < m_rows tk"
    and "cache_find h (get_cell_by_coords (ref_row num, get_col_by_char tk c)) = Some T_UNDEFINED"
  shows "parse_expr n tk (ds @ oc # c # rest) h = Some (Inl (Domain_error ''#E_CROSS_REF''), h)"
proof -
  from assms(1) obtain d ds' where ds: "ds = d # ds'" and d: "isdigit d"
    by (cases ds) (auto simp: literal_def)
  have "get_number_by_str (ds @ oc # c # rest) = Some (dec_value ds, last ds # oc # c # rest)"
    using assms(1) is_operator_not_digit [OF assms(2)] by (intro get_number_by_str_literal) simp_all
  then have "parse_expr_loop n tk (ds @ oc # c # rest) [] OP_NONE T_UNDEFINED h =
      parse_expr_loop n tk (oc # c # rest) [T_NUMBER (dec_value ds)] OP_NONE T_UNDEFINED h"
    using ds loop_digit [OF d, of n tk "ds' @ oc # c # rest" "[]" OP_NONE T_UNDEFINED h]
    by (simp add: reduce_def)
  also have "\<dots> = parse_expr_loop n tk (c # rest) [T_NUMBER (dec_value ds)] (get_operator oc) T_UNDEFINED h"
    using assms(2) by (simp add: loop_operator)
  also have "\<dots> = Some (Inl (Domain_error ''#E_CROSS_REF''), h)"
    using assms(3-7) by (rule loop_reference_pending)
  finally show ?thesis by (simp add: parse_expr.simps)
qed

text \<open>
  Claim C9. \<open>parse_expr\<close> on the empty text throws nothing and returns the default
  token \<open>T_UNDEFINED\<close>. \<open>run\<close>, on a record with empty text whose cell is not in the
  cache, reserves the cell and commits that token, so the entry stays Pending;
  \<open>get_value\<close> renders such an entry as the empty string. Wherever the scan of a
  formula then reaches a reference to such a cell, whatever the operands already on the
  stack and the pending operator, it throws \<^verbatim>\<open>#E_CROSS_REF\<close> and leaves the cache as it
  is; so does the whole formula when the reference is its first operand, and when it
  follows a number and an operator, as in \<^verbatim>\<open>=1+A1\<close>. On the grid with A1 = \<^verbatim>\<open>=\<close> and
  B1 = \<^verbatim>\<open>=A1\<close>, where no cell refers back to another, B1 ends with \<^verbatim>\<open>#E_CROSS_REF\<close>.
\<close>

theorem empty_formula_stays_undefined:
  "parse_expr n tk [] h = Some (Inr T_UNDEFINED, h) \<and>
   (cache_find h (get_cell_by_coords (m_coords ex)) = None \<and> m_value ex = [] \<longrightarrow>
      run_loop n tk (ex # exs) h diag =
        run_loop n tk exs
          (assign (get_cell_by_coords (m_coords ex)) T_UNDEFINED
             (emplace (get_cell_by_coords (m_coords ex)) h)) diag \<and>
      cache_find (assign (get_cell_by_coords (m_coords ex)) T_UNDEFINED
             (emplace (get_cell_by_coords (m_coords ex)) h)) (get_cell_by_coords (m_coords ex)) =
        Some T_UNDEFINED) \<and>
   (cache_find h1 (get_cell_by_coords coords) = Some T_UNDEFINED \<longrightarrow>
      get_value coords h1 = ([], h1)) \<and>
   (is_ref_candidate tk c \<and> get_number_by_str rest = Some (num, it) \<and>
    0 \<le> ref_row num \<and> ref_row num < m_rows tk \<and>
    cache_find h1 (get_cell_by_coords (ref_row num, get_col_by_char tk c)) = Some T_UNDEFINED \<longrightarrow>
      parse_expr_loop n tk (c # rest) toks op tok h1 = Some (Inl (Domain_error ''#E_CROSS_REF''), h1) \<and>
      parse_expr n tk (c # rest) h1 = Some (Inl (Domain_error ''#E_CROSS_REF''), h1) \<and>
      (literal ds \<and> is_operator oc \<longrightarrow>
         parse_expr n tk (ds @ oc # c # rest) h1 = Some (Inl (Domain_error ''#E_CROSS_REF''), h1))) \<and>
   run grid_empty_formula =
     Some (Inr ([Commit ''B1'' (T_STRING ''#E_CROSS_REF''), Reserve ''B1'',
                 Commit ''A1'' T_UNDEFINED, Reserve ''A1''], []))"
proof (intro conjI impI)
  show "parse_expr n tk [] h = Some (Inr T_UNDEFINED, h)" by (rule parse_expr_empty)
next
  assume a: "cache_find h (get_cell_by_coords (m_coords ex)) = None \<and> m_value ex = []"
  then show "run_loop n tk (ex # exs) h diag =
        run_loop n tk exs
          (assign (get_cell_by_coords (m_coords ex)) T_UNDEFINED
             (emplace (get_cell_by_coords (m_coords ex)) h)) diag"
    by (simp add: Let_def parse_expr_empty)
  show "cache_find (assign (get_cell_by_coords (m_coords ex)) T_UNDEFINED
             (emplace (get_cell_by_coords (m_coords ex)) h)) (get_cell_by_coords (m_coords ex)) =
        Some T_UNDEFINED"
    by (simp add: assign_def)
next
  assume "cache_find h1 (get_cell_by_coords coords) = Some T_UNDEFINED"
  then show "get_value coords h1 = ([], h1)" by (simp add: get_value_def)
next
  assume p: "is_ref_candidate tk c \<and> get_number_by_str rest = Some (num, it) \<and>
    0 \<le> ref_row num \<and> ref_row num < m_rows tk \<and>
    cache_find h1 (get_cell_by_coords (ref_row num, get_col_by_char tk c)) = Some T_UNDEFINED"
  then show "parse_expr_loop n tk (c # rest) toks op tok h1 = Some (Inl (Domain_error ''#E_CROSS_REF''), h1)"
    using loop_reference_pending by blast
  from p show "parse_expr n tk (c # rest) h1 = Some (Inl (Domain_error ''#E_CROSS_REF''), h1)"
    using parse_expr_reference_pending by blast
  assume "literal ds \<and> is_operator oc"
  with p show "parse_expr n tk (ds @ oc # c # rest) h1 = Some (Inl (Domain_error ''#E_CROSS_REF''), h1)"
    using parse_expr_literal_then_pending by blast
next
  show "run grid_empty_formula =
     Some (Inr ([Commit ''B1'' (T_STRING ''#E_CROSS_REF''), Reserve ''B1'',
                 Commit ''A1'' T_UNDEFINED, Reserve ''A1''], []))"
    by (rule run_grid_empty_formula)
qed

theorem empty_formula_stays_undefined_witness:
  "cache_find [] (get_cell_by_coords (m_coords \<lparr>m_coords = (0, 0), m_value = ''''\<rparr>)) = None \<and>
   m_value \<lparr>m_coords = (0, 0), m_value = ''''\<rparr> = [] \<and>
   run_loop 0 grid_empty_formula
     [\<lparr>m_coords = (0, 0), m_value = ''''\<rparr>, \<lparr>m_coords = (0, 1), m_value = ''A1''\<rparr>] [] [] =
   run_loop 0 grid_empty_formula [\<lparr>m_coords = (0, 1), m_value = ''A1''\<rparr>]
     [Commit ''A1'' T_UNDEFINED, Reserve ''A1''] [] \<and>
   cache_find [Commit ''A1'' T_UNDEFINED, Reserve ''A1''] (get_cell_by_coords (0, 0)) = Some T_UNDEFINED \<and>
   get_value (0, 0) [Commit ''A1'' T_UNDEFINED, Reserve ''A1''] =
     ([], [Commit ''A1'' T_UNDEFINED, Reserve ''A1'']) \<and>
   is_ref_candidate grid_empty_formula CHR ''A'' \<and> get_number_by_str ''1'' = Some (1, ''1'') \<and>
   0 \<le> ref_row 1 \<and> ref_row 1 < m_rows grid_empty_formula \<and>
   cache_find [Commit ''A1'' T_UNDEFINED, Reserve ''A1'']
     (get_cell_by_coords (ref_row 1, get_col_by_char grid_empty_formula CHR ''A'')) = Some T_UNDEFINED \<and>
   parse_expr_loop 0 grid_empty_formula ''A1'' [T_NUMBER 1] OP_ADD T_UNDEFINED
       [Commit ''A1'' T_UNDEFINED, Reserve ''A1''] =
     Some (Inl (Domain_error ''#E_CROSS_REF''), [Commit ''A1'' T_UNDEFINED, Reserve ''A1'']) \<and>
   parse_expr 0 grid_empty_formula ''A1'' [Commit ''A1'' T_UNDEFINED, Reserve ''A1''] =
     Some (Inl (Domain_error ''#E_CROSS_REF''), [Commit ''A1'' T_UNDEFINED, Reserve ''A1'']) \<and>
   literal ''1'' \<and> is_operator CHR ''+'' \<and>
   parse_expr 0 grid_empty_formula ''1+A1'' [Commit ''A1'' T_UNDEFINED, Reserve ''A1''] =
     Some (Inl (Domain_error ''#E_CROSS_REF''), [Commit ''A1'' T_UNDEFINED, Reserve ''A1''])"
proof -
  let ?ex = "\<lparr>m_coords = (0, 0), m_value = ''''\<rparr>"
  let ?h1 = "[Commit ''A1'' T_UNDEFINED, Reserve ''A1'']"
  have k: "get_cell_by_coords (0, 0) = ''A1''" by code_simp
  have a: "cache_find [] (get_cell_by_coords (m_coords ?ex)) = None \<and> m_value ?ex = []"
    by simp
  have b: "cache_find ?h1 (get_cell_by_coords (0, 0)) = Some T_UNDEFINED" by code_simp
  have c: "is_ref_candidate grid_empty_formula CHR ''A'' \<and> get_number_by_str ''1'' = Some (1, ''1'') \<and>
      0 \<le> ref_row 1 \<and> ref_row 1 < m_rows grid_empty_formula \<and>
      cache_find ?h1 (get_cell_by_coords (ref_row 1, get_col_by_char grid_empty_formula CHR ''A'')) =
        Some T_UNDEFINED"
    by code_simp
  have d: "literal ''1'' \<and> is_operator CHR ''+''" by code_simp
  note t = empty_formula_stays_undefined [where n = 0 and tk = grid_empty_formula and h = "[]"
      and ex = ?ex and exs = "[\<lparr>m_coords = (0, 1), m_value = ''A1''\<rparr>]" and diag = "[]"
      and ?h1.0 = ?h1 and coords = "(0, 0)" and c = "CHR ''A''" and rest = "''1''" and num = 1
      and it = "''1''" and toks = "[T_NUMBER 1]" and op = OP_ADD and tok = T_UNDEFINED
      and ds = "''1''" and oc = "CHR ''+''"]
  from t a have "run_loop 0 grid_empty_formula [?ex, \<lparr>m_coords = (0, 1), m_value = ''A1''\<rparr>] [] [] =
      run_loop 0 grid_empty_formula [\<lparr>m_coords = (0, 1), m_value = ''A1''\<rparr>]
        (assign (get_cell_by_coords (m_coords ?ex)) T_UNDEFINED
           (emplace (get_cell_by_coords (m_coords ?ex)) [])) []"
    by blast
  then have r: "run_loop 0 grid_empty_formula [?ex, \<lparr>m_coords = (0, 1), m_value = ''A1''\<rparr>] [] [] =
      run_loop 0 grid_empty_formula [\<lparr>m_coords = (0, 1), m_value = ''A1''\<rparr>] ?h1 []"
    by (simp add: k assign_def emplace_def)
  from t b have g: "get_value (0, 0) ?h1 = ([], ?h1)" by blast
  from t c have l: "parse_expr_loop 0 grid_empty_formula ''A1'' [T_NUMBER 1] OP_ADD T_UNDEFINED ?h1 =
      Some (Inl (Domain_error ''#E_CROSS_REF''), ?h1)" by blast
  from t c have p: "parse_expr 0 grid_empty_formula ''A1'' ?h1 =
      Some (Inl (Domain_error ''#E_CROSS_REF''), ?h1)" by blast
  from t c d have "parse_expr 0 grid_empty_formula (''1'' @ CHR ''+'' # ''A1'') ?h1 =
      Some (Inl (Domain_error ''#E_CROSS_REF''), ?h1)" by blast
  then have q: "parse_expr 0 grid_empty_formula ''1+A1'' ?h1 =
      Some (Inl (Domain_error ''#E_CROSS_REF''), ?h1)" by simp
  from a r b g c l p d q show ?thesis by blast
qed

subsection \<open>A dangling operator at the end of a formula\<close>

lemma loop_induct [case_names nil operator digit reference other]:
  fixes tk :: Tokenizer
  assumes nil: "\<And>n toks op tok h. Q n [] toks op tok h"
    and operator: "\<And>n c rest toks op tok h.
          is_operator c \<Longrightarrow>
          (op = OP_NONE \<Longrightarrow> toks \<noteq> [] \<Longrightarrow> Q n rest toks (get_operator c) tok h) \<Longrightarrow>
          Q n (c # rest) toks op tok h"
    and digit: "\<And>n c rest toks op tok h.
          isdigit c \<Longrightarrow>
          (\<And>num it toks' op' tok'.
              get_number_by_str (c # rest) = Some (num, it) \<Longrightarrow>
              reduce (toks @ [T_NUMBER num]) op tok = Inr (toks', op', tok') \<Longrightarrow>
              Q n (tl it) toks' op' tok' h) \<Longrightarrow>
          Q n (c # rest) toks op tok h"
    and reference: "\<And>n c rest toks op tok h.
          is_ref_candidate tk c \<Longrightarrow>
          (\<And>num it t h1 toks' op' tok'.
              get_number_by_str rest = Some (num, it) \<Longrightarrow>
              0 \<le> ref_row num \<Longrightarrow> ref_row num < m_rows tk \<Longrightarrow>
              resolve_cell n tk (ref_row num, get_col_by_char tk c) h = Some (Inr t, h1) \<Longrightarrow>
              reduce (toks @ [t]) op t = Inr (toks', op', tok') \<Longrightarrow>
              Q n (tl it) toks' op' tok' h1) \<Longrightarrow>
          Q n (c # rest) toks op tok h"
    and other: "\<And>n c rest toks op tok h.
          \<not> is_operator c \<Longrightarrow> \<not> isdigit c \<Longrightarrow> \<not> is_ref_candidate tk c \<Longrightarrow>
          Q n (c # rest) toks op tok h"
  shows "Q n str toks op tok h"
proof (rule parse_induct(2) [where tk = tk and P = "\<lambda>_ _ _. True" and R = "\<lambda>_ _ _. True" and Q = Q])
  show "Q n [] toks op tok h" for n toks op tok h by (rule nil)
next
  fix n c rest toks op tok h
  assume "is_operator c"
    and "op = OP_NONE \<Longrightarrow> toks \<noteq> [] \<Longrightarrow> Q n rest toks (get_operator c) tok h"
  then show "Q n (c # rest) toks op tok h" by (rule operator)
next
  fix n c rest toks op tok h
  assume "isdigit c"
    and "\<And>num it toks' op' tok'.
              get_number_by_str (c # rest) = Some (num, it) \<Longrightarrow>
              reduce (toks @ [T_NUMBER num]) op tok = Inr (toks', op', tok') \<Longrightarrow>
              Q n (tl it) toks' op' tok' h"
  then show "Q n (c # rest) toks op tok h" by (rule digit)
next
  fix n c rest toks op tok h
  assume "is_ref_candidate tk c"
    and "\<And>num it t h1 toks' op' tok'.
              get_number_by_str rest = Some (num, it) \<Longrightarrow>
              0 \<le> ref_row num \<Longrightarrow> ref_row num < m_rows tk \<Longrightarrow>
              resolve_cell n tk (ref_row num, get_col_by_char tk c) h = Some (Inr t, h1) \<Longrightarrow>
              reduce (toks @ [t]) op t = Inr (toks', op', tok') \<Longrightarrow>
              Q n (tl it) toks' op' tok' h1"
  then show "Q n (c # rest) toks op tok h" by (rule reference)
next
  fix n c rest toks op tok h
  assume "\<not> is_operator c" "\<not> isdigit c" "\<not> is_ref_candidate tk c"
  then show "Q n (c # rest) toks op tok h" by (rule other)
qed simp_all

lemma get_number_by_str_loop_munch:
  "get_number_by_str_loop num s = Some (v, it) \<Longrightarrow> tl it = [] \<or> \<not> isdigit (hd (tl it))"
  by (induction num s rule: get_number_by_str_loop.induct) (auto split: if_splits)

lemma get_number_by_str_munch:
  "get_number_by_str s = Some (v, it) \<Longrightarrow> tl it = [] \<or> \<not> isdigit (hd (tl it))"
  unfolding get_number_by_str_def by (rule get_number_by_str_loop_munch)

lemma get_number_by_str_loop_nonempty:
  "get_number_by_str_loop num s = Some (v, it) \<Longrightarrow> s \<noteq> [] \<Longrightarrow> it \<noteq> []"
  by (induction num s rule: get_number_by_str_loop.induct) (auto split: if_splits)

lemma get_number_by_str_loop_append:
  assumes "\<not> isdigit oc" "s \<noteq> []"
  shows "get_number_by_str_loop num (s @ [oc]) =
           map_option (\<lambda>(v, it). (v, it @ [oc])) (get_number_by_str_loop num s)"
  using assms(2)
proof (induction num s rule: get_number_by_str_loop.induct)
  case (1 num)
  then show ?case by simp
next
  case (2 num c rest)
  show ?case
  proof (cases "rest = []")
    case True
    then show ?thesis using assms(1) by simp
  next
    case False
    then have hd: "hd (rest @ [oc]) = hd rest" by simp
    show ?thesis using 2 False hd by auto
  qed
qed

lemma get_number_by_str_append:
  assumes "\<not> isdigit oc" "s \<noteq> []"
  shows "get_number_by_str (s @ [oc]) = map_option (\<lambda>(v, it). (v, it @ [oc])) (get_number_by_str s)"
  unfolding get_number_by_str_def using assms by (rule get_number_by_str_loop_append)

lemma reduce_cases:
  assumes "reduce toks op tok = Inr (toks', op', tok')"
  shows "(toks' = toks \<and> op' = op \<and> tok' = tok \<and> \<not> (length toks = 2 \<and> op \<noteq> OP_NONE \<and> op \<noteq> OP_UNKNOWN)) \<or>
         (length toks = 2 \<and> op \<noteq> OP_NONE \<and> op' = OP_NONE \<and> toks' = [tok'])"
proof (cases "length toks = 2 \<and> op \<noteq> OP_NONE \<and> op \<noteq> OP_UNKNOWN")
  case False
  with assms show ?thesis by (auto simp: reduce_def)
next
  case True
  with assms obtain t below where ev: "evaluate toks op = Inr (t, below)"
    and res: "toks' = below @ [t]" "op' = OP_NONE" "tok' = t"
    by (auto simp: reduce_def split: sum.splits)
  from ev have "below = butlast (butlast toks)" by (rule evaluate_leaves_below)
  with True have "below = []" by (cases toks rule: rev_cases; cases "butlast toks" rule: rev_cases) auto
  with True res show ?thesis by simp
qed

lemma scan_inv_after_push:
  assumes "reduce (toks @ [t]) op tok1 = Inr (toks', op', tok')"
    and "rest = [] \<or> \<not> isdigit (hd rest)"
    and "op = OP_NONE \<and> toks \<noteq> [] \<longrightarrow> tok1 = t"
  shows "scan_inv toks' op' tok' rest"
  using reduce_cases [OF assms(1)] assms(2,3)
  by (cases "toks = []") (auto simp: scan_inv_def)

lemma scan_last_pushed:
  "scan_inv toks op tok str \<longrightarrow>
     parse_expr_loop n tk str toks op tok h = Some (Inr (toks', op', tok'), h') \<longrightarrow>
     (op' = OP_NONE \<and> 2 \<le> length toks' \<longrightarrow> tok' = last toks')"
proof (induction n str toks op tok h arbitrary: toks' op' tok' h' rule: loop_induct [where tk = tk])
  case (nil n toks op tok h)
  show ?case by (auto simp: scan_inv_def)
next
  case (operator n c rest toks op tok h)
  show ?case
  proof (intro impI)
    assume inv: "scan_inv toks op tok (c # rest)"
      and run: "parse_expr_loop n tk (c # rest) toks op tok h = Some (Inr (toks', op', tok'), h')"
      and fin: "op' = OP_NONE \<and> 2 \<le> length toks'"
    from run operator(1) have ok: "op = OP_NONE" "toks \<noteq> []"
      and next_run: "parse_expr_loop n tk rest toks (get_operator c) tok h = Some (Inr (toks', op', tok'), h')"
      by (auto simp: loop_operator split: if_splits)
    have "scan_inv toks (get_operator c) tok rest"
      using is_operator_oper [OF operator(1)] by (simp add: scan_inv_def)
    with operator(2) [OF ok] next_run fin show "tok' = last toks'" by blast
  qed
next
  case (digit n c rest toks op tok h)
  show ?case
  proof (intro impI)
    assume inv: "scan_inv toks op tok (c # rest)"
      and run: "parse_expr_loop n tk (c # rest) toks op tok h = Some (Inr (toks', op', tok'), h')"
      and fin: "op' = OP_NONE \<and> 2 \<le> length toks'"
    from run digit(1) obtain num it toks1 op1 tok1 where
      num: "get_number_by_str (c # rest) = Some (num, it)"
      and red: "reduce (toks @ [T_NUMBER num]) op tok = Inr (toks1, op1, tok1)"
      and next_run: "parse_expr_loop n tk (tl it) toks1 op1 tok1 h = Some (Inr (toks', op', tok'), h')"
      by (auto simp: loop_digit split: option.splits sum.splits prod.splits)
    from inv digit(1) have "\<not> (op = OP_NONE \<and> toks \<noteq> [])" by (auto simp: scan_inv_def)
    then have "scan_inv toks1 op1 tok1 (tl it)"
      using red get_number_by_str_munch [OF num] by (intro scan_inv_after_push) auto
    with digit(2) [OF num red] next_run fin show "tok' = last toks'" by blast
  qed
next
  case (reference n c rest toks op tok h)
  show ?case
  proof (intro impI)
    assume inv: "scan_inv toks op tok (c # rest)"
      and run: "parse_expr_loop n tk (c # rest) toks op tok h = Some (Inr (toks', op', tok'), h')"
      and fin: "op' = OP_NONE \<and> 2 \<le> length toks'"
    from run reference(1) obtain num it where num: "get_number_by_str rest = Some (num, it)"
      by (auto simp: loop_reference split: option.splits)
    from run reference(1) num have row: "0 \<le> ref_row num" "ref_row num < m_rows tk"
      by (auto simp: loop_reference split: if_splits)
    from run reference(1) num row obtain t h1 toks1 op1 tok1 where
      res: "resolve_cell n tk (ref_row num, get_col_by_char tk c) h = Some (Inr t, h1)"
      and red: "reduce (toks @ [t]) op t = Inr (toks1, op1, tok1)"
      and next_run: "parse_expr_loop n tk (tl it) toks1 op1 tok1 h1 = Some (Inr (toks', op', tok'), h')"
      by (auto simp: loop_reference split: option.splits sum.splits prod.splits)
    have "scan_inv toks1 op1 tok1 (tl it)"
      using red get_number_by_str_munch [OF num] by (intro scan_inv_after_push) auto
    with reference(2) [OF num row res red] next_run fin show "tok' = last toks'" by blast
  qed
next
  case (other n c rest toks op tok h)
  then show ?case by (simp add: loop_other)
qed

lemma scan_append_operator:
  assumes oc: "is_operator oc"
  shows "parse_expr_loop n tk (str @ [oc]) toks op tok h =
       (case parse_expr_loop n tk str toks op tok h of
          None \<Rightarrow> None
        | Some (Inl e, h') \<Rightarrow> Some (Inl e, h')
        | Some (Inr (toks', op', tok'), h') \<Rightarrow> parse_expr_loop n tk [oc] toks' op' tok' h')"
proof (induction n str toks op tok h rule: loop_induct [where tk = tk])
  case (nil n toks op tok h)
  show ?case by simp
next
  case (operator n c rest toks op tok h)
  then show ?case by (auto simp: loop_operator)
next
  case (digit n c rest toks op tok h)
  have nd: "\<not> isdigit oc" using oc by (rule is_operator_not_digit)
  have app: "get_number_by_str ((c # rest) @ [oc]) =
      map_option (\<lambda>(v, it). (v, it @ [oc])) (get_number_by_str (c # rest))"
    using nd by (intro get_number_by_str_append) simp_all
  show ?case
  proof (cases "get_number_by_str (c # rest)")
    case None
    with app digit(1) show ?thesis by (simp add: loop_digit)
  next
    case (Some p)
    obtain num it where p: "p = (num, it)" by (cases p)
    from Some p have "it \<noteq> []"
      using get_number_by_str_loop_nonempty [of 0 "c # rest" num it] by (simp add: get_number_by_str_def)
    then have tl: "tl (it @ [oc]) = tl it @ [oc]" by simp
    show ?thesis
    proof (cases "reduce (toks @ [T_NUMBER num]) op tok")
      case (Inl e)
      with app Some p digit(1) show ?thesis by (simp add: loop_digit)
    next
      case (Inr st)
      obtain toks1 op1 tok1 where st: "st = (toks1, op1, tok1)" by (cases st)
      from digit(2) [OF Some [unfolded p] Inr [unfolded st]]
      show ?thesis using app Some p Inr st tl digit(1) by (simp add: loop_digit)
    qed
  qed
next
  case (reference n c rest toks op tok h)
  have nd: "\<not> isdigit oc" using oc by (rule is_operator_not_digit)
  show ?case
  proof (cases "rest = []")
    case True
    have "char_int oc - 48 < 0" using is_operator_char_int [OF oc] by simp
    moreover have "- 176 \<le> char_int oc - 48"
      using of_char_int_bounds [of oc] by (auto simp: char_int_def Let_def)
    ultimately have "get_number_by_str [oc] = Some (char_int oc - 48, [oc])"
      and neg: "ref_row (char_int oc - 48) < 0" and "ref_row 0 < 0"
      by (simp_all add: get_number_by_str_def int_range_def ref_row_def to_short_small)
    then show ?thesis using True reference(1)
      by (simp add: loop_reference get_number_by_str_def)
  next
    case False
    have app: "get_number_by_str (rest @ [oc]) =
        map_option (\<lambda>(v, it). (v, it @ [oc])) (get_number_by_str rest)"
      using nd False by (rule get_number_by_str_append)
    show ?thesis
    proof (cases "get_number_by_str rest")
      case None
      with app reference(1) show ?thesis by (simp add: loop_reference)
    next
      case (Some p)
      obtain num it where p: "p = (num, it)" by (cases p)
      from Some p False have "it \<noteq> []"
        using get_number_by_str_loop_nonempty [of 0 rest num it] by (simp add: get_number_by_str_def)
      then have tl: "tl (it @ [oc]) = tl it @ [oc]" by simp
      show ?thesis
      proof (cases "ref_row num + 1 > m_rows tk \<or> ref_row num < 0")
        case True
        with app Some p reference(1) show ?thesis by (auto simp: loop_reference)
      next
        case ok: False
        then have row: "0 \<le> ref_row num" "ref_row num < m_rows tk" by simp_all
        show ?thesis
        proof (cases "resolve_cell n tk (ref_row num, get_col_by_char tk c) h")
          case None
          with app Some p ok reference(1) show ?thesis by (simp add: loop_reference)
        next
          case res: (Some q)
          obtain x h1 where q: "q = (x, h1)" by (cases q)
          show ?thesis
          proof (cases x)
            case (Inl e)
            with app Some p ok res q reference(1) show ?thesis by (simp add: loop_reference)
          next
            case (Inr t)
            show ?thesis
            proof (cases "reduce (toks @ [t]) op t")
              case (Inl e)
              with app Some p ok res q Inr reference(1) show ?thesis by (simp add: loop_reference)
            next
              case red: (Inr st)
              obtain toks1 op1 tok1 where st: "st = (toks1, op1, tok1)" by (cases st)
              from reference(2) [OF Some [unfolded p] row res [unfolded q Inr] red [unfolded st]]
              show ?thesis using app Some p ok res q Inr red st tl reference(1)
                by (simp add: loop_reference)
            qed
          qed
        qed
      qed
    qed
  qed
next
  case (other n c rest toks op tok h)
  then show ?case by (simp add: loop_other)
qed

lemma scan_inv_initial: "scan_inv [] OP_NONE T_UNDEFINED str"
  by (simp add: scan_inv_def)

lemma parse_expr_dangling_operator:
  assumes oc: "is_operator oc"
    and scan: "parse_expr_loop n tk str [] OP_NONE T_UNDEFINED h = Some (Inr (toks, OP_NONE, tok), h')"
    and ne: "toks \<noteq> []"
  shows "parse_expr_loop n tk (str @ [oc]) [] OP_NONE T_UNDEFINED h =
           Some (Inr (toks, get_operator oc, tok), h')"
    and "parse_expr n tk (str @ [oc]) h = Some (Inr (last toks), h')"
proof -
  show loop: "parse_expr_loop n tk (str @ [oc]) [] OP_NONE T_UNDEFINED h =
           Some (Inr (toks, get_operator oc, tok), h')"
    using scan ne oc by (simp add: scan_append_operator [OF oc] loop_operator)
  have "tok = last toks" if "2 \<le> length toks"
    using scan_last_pushed [of "[]" OP_NONE T_UNDEFINED str n tk h toks OP_NONE tok h']
      scan_inv_initial scan that by blast
  moreover have "length toks = 1 \<or> 2 \<le> length toks"
  proof -
    from ne have "length toks \<noteq> 0" by simp
    then show ?thesis by linarith
  qed
  ultimately show "parse_expr n tk (str @ [oc]) h = Some (Inr (last toks), h')"
    using loop by (auto simp: parse_expr.simps)
qed

lemma scan_ending_in_operator:
  assumes oc: "is_operator oc"
    and scan: "parse_expr_loop n tk (str @ [oc]) [] OP_NONE T_UNDEFINED h = Some (Inr (toks, op, tok), h')"
  shows "parse_expr_loop n tk str [] OP_NONE T_UNDEFINED h = Some (Inr (toks, OP_NONE, tok), h') \<and>
         toks \<noteq> [] \<and> op = get_operator oc"
proof -
  from scan obtain toks1 op1 tok1 h1 where
    s1: "parse_expr_loop n tk str [] OP_NONE T_UNDEFINED h = Some (Inr (toks1, op1, tok1), h1)"
    and s2: "parse_expr_loop n tk [oc] toks1 op1 tok1 h1 = Some (Inr (toks, op, tok), h')"
    unfolding scan_append_operator [OF oc]
    by (auto split: option.splits sum.splits prod.splits)
  from s2 oc have "op1 = OP_NONE \<and> toks1 \<noteq> [] \<and> toks = toks1 \<and> op = get_operator oc \<and> tok = tok1 \<and> h' = h1"
    by (auto simp: loop_operator split: if_splits)
  with s1 show ?thesis by simp
qed

text \<open>
  Claim C8. If the scan of a formula whose last character is an operator completes,
  that operator is still pending at the end, the stack of operands is not empty, and
  \<open>parse_expr\<close> returns the operand pushed last, with no error. Put the other way
  round: if the scan of a text ends with operands on the stack and no pending
  operator, the same text followed by an operator evaluates to the operand pushed last.
  The formulas \<^verbatim>\<open>=5+\<close> and \<^verbatim>\<open>=2+3+\<close> both yield 5.
\<close>

theorem dangling_operator_returns_last_operand:
  "(is_operator oc \<and>
    parse_expr_loop n tk (str @ [oc]) [] OP_NONE T_UNDEFINED h = Some (Inr (toks, op, tok), h') \<longrightarrow>
      op = get_operator oc \<and> op \<noteq> OP_NONE \<and> toks \<noteq> [] \<and>
      parse_expr n tk (str @ [oc]) h = Some (Inr (last toks), h')) \<and>
   (is_operator oc \<and>
    parse_expr_loop n tk str [] OP_NONE T_UNDEFINED h = Some (Inr (toks, OP_NONE, tok), h') \<and>
    toks \<noteq> [] \<longrightarrow>
      parse_expr n tk (str @ [oc]) h = Some (Inr (last toks), h')) \<and>
   parse_expr n tk ''5+'' h = Some (Inr (T_NUMBER 5), h) \<and>
   parse_expr n tk ''2+3+'' h = Some (Inr (T_NUMBER 5), h)"
proof (intro conjI impI)
  assume a: "is_operator oc \<and>
    parse_expr_loop n tk (str @ [oc]) [] OP_NONE T_UNDEFINED h = Some (Inr (toks, op, tok), h')"
  then have b: "parse_expr_loop n tk str [] OP_NONE T_UNDEFINED h = Some (Inr (toks, OP_NONE, tok), h') \<and>
         toks \<noteq> [] \<and> op = get_operator oc"
    using scan_ending_in_operator by blast
  then show "op = get_operator oc" and "toks \<noteq> []" by simp_all
  from a b show "op \<noteq> OP_NONE" using is_operator_oper [of oc] by simp
  from a b show "parse_expr n tk (str @ [oc]) h = Some (Inr (last toks), h')"
    using parse_expr_dangling_operator(2) by blast
next
  assume "is_operator oc \<and>
    parse_expr_loop n tk str [] OP_NONE T_UNDEFINED h = Some (Inr (toks, OP_NONE, tok), h') \<and>
    toks \<noteq> []"
  then show "parse_expr n tk (str @ [oc]) h = Some (Inr (last toks), h')"
    using parse_expr_dangling_operator(2) by blast
next
  show "parse_expr n tk ''5+'' h = Some (Inr (T_NUMBER 5), h)"
    by (simp add: parse_expr.simps parse_expr_loop.simps scan_simps)
  show "parse_expr n tk ''2+3+'' h = Some (Inr (T_NUMBER 5), h)"
    by (simp add: parse_expr.simps parse_expr_loop.simps scan_simps)
qed

theorem dangling_operator_returns_last_operand_witness:
  "is_operator CHR ''+'' \<and>
   parse_expr_loop 3 grid_example (''A1C1'' @ ''+'') [] OP_NONE T_UNDEFINED [] =
     Some (Inr ([T_NUMBER 12, T_NUMBER 3], OP_ADD, T_NUMBER 3),
       [Commit ''C1'' (T_NUMBER 3), Reserve ''C1'', Commit ''A1'' (T_NUMBER 12), Reserve ''A1'']) \<and>
   parse_expr_loop 3 grid_example ''A1C1'' [] OP_NONE T_UNDEFINED [] =
     Some (Inr ([T_NUMBER 12, T_NUMBER 3], OP_NONE, T_NUMBER 3),
       [Commit ''C1'' (T_NUMBER 3), Reserve ''C1'', Commit ''A1'' (T_NUMBER 12), Reserve ''A1'']) \<and>
   [T_NUMBER 12, T_NUMBER 3] \<noteq> [] \<and>
   OP_ADD = get_operator CHR ''+'' \<and>
   parse_expr 3 grid_example (''A1C1'' @ ''+'') [] =
     Some (Inr (last [T_NUMBER 12, T_NUMBER 3]),
       [Commit ''C1'' (T_NUMBER 3), Reserve ''C1'', Commit ''A1'' (T_NUMBER 12), Reserve ''A1''])"
proof -
  let ?h = "[Commit ''C1'' (T_NUMBER 3), Reserve ''C1'', Commit ''A1'' (T_NUMBER 12), Reserve ''A1'']"
  have a: "is_operator CHR ''+'' \<and>
      parse_expr_loop 3 grid_example (''A1C1'' @ ''+'') [] OP_NONE T_UNDEFINED [] =
        Some (Inr ([T_NUMBER 12, T_NUMBER 3], OP_ADD, T_NUMBER 3), ?h)"
    by code_simp
  have b: "parse_expr_loop 3 grid_example ''A1C1'' [] OP_NONE T_UNDEFINED [] =
      Some (Inr ([T_NUMBER 12, T_NUMBER 3], OP_NONE, T_NUMBER 3), ?h) \<and> [T_NUMBER 12, T_NUMBER 3] \<noteq> []"
    by code_simp
  note t = dangling_operator_returns_last_operand [of "CHR ''+''" 3 grid_example "''A1C1''" "[]"
      "[T_NUMBER 12, T_NUMBER 3]" OP_ADD "T_NUMBER 3" ?h]
  from t a have c: "OP_ADD = get_operator CHR ''+'' \<and>
      parse_expr 3 grid_example (''A1C1'' @ ''+'') [] = Some (Inr (last [T_NUMBER 12, T_NUMBER 3]), ?h)"
    by blast
  from a b c show ?thesis by blast
qed

subsection \<open>The internal error and the diagnostic handler\<close>

text \<open>
  \<open>parse_expr\<close> never lets the internal error of \<open>parse_reference\<close> out: it calls
  \<open>parse_reference\<close> only for a cell that is not in the cache, and then the branch that
  throws it is not taken (\<open>internal_error_unreachable\<close>). The only exception that the
  second handler of \<open>run\<close> receives is the \<^verbatim>\<open>std::out_of_range\<close> of \<^verbatim>\<open>std::stoi\<close>
  (\<open>run_loop_diagnostics\<close>).
\<close>

lemma resolve_cell_no_internal_error:
  assumes "resolve_cell n tk coords h = Some (x, h1)"
    and "cache_find h (get_cell_by_coords coords) = None \<Longrightarrow>
           parse_reference n tk coords h = Some (x, h1) \<longrightarrow> x \<noteq> Inl (Logic_error msg)"
  shows "x \<noteq> Inl (Logic_error msg)"
  using assms by (auto simp: resolve_cell_def split: option.splits if_splits)

lemma no_internal_error:
  "parse_expr n tk str h = Some (x, h') \<longrightarrow> x \<noteq> Inl (Logic_error msg)"
  "parse_expr_loop n tk str toks op tok h = Some (x2, h') \<longrightarrow> x2 \<noteq> Inl (Logic_error msg)"
  "cache_find h (get_cell_by_coords coords) = None \<longrightarrow>
     parse_reference n tk coords h = Some (x, h') \<longrightarrow> x \<noteq> Inl (Logic_error msg)"
proof (induction n str h and n str toks op tok h and n coords h
    arbitrary: x h' and x2 h' and x h' rule: parse_induct [where tk = tk])
  case (expr n str h)
  show ?case
  proof
    assume a: "parse_expr n tk str h = Some (x, h')"
    then obtain y where y: "parse_expr_loop n tk str [] OP_NONE T_UNDEFINED h = Some (y, h')"
      by (auto simp: parse_expr.simps split: option.splits sum.splits prod.splits)
    with expr have "y \<noteq> Inl (Logic_error msg)" by simp
    with a y show "x \<noteq> Inl (Logic_error msg)"
      by (cases y) (auto simp: parse_expr.simps)
  qed
next
  case (nil n toks op tok h)
  show ?case by auto
next
  case (operator n c rest toks op tok h)
  then show ?case by (auto simp: loop_operator split: if_splits)
next
  case (digit n c rest toks op tok h)
  show ?case
  proof
    assume run: "parse_expr_loop n tk (c # rest) toks op tok h = Some (x2, h')"
    show "x2 \<noteq> Inl (Logic_error msg)"
    proof (cases "get_number_by_str (c # rest)")
      case None
      with run digit(1) show ?thesis by (auto simp: loop_digit)
    next
      case (Some p)
      obtain num it where p: "p = (num, it)" by (cases p)
      show ?thesis
      proof (cases "reduce (toks @ [T_NUMBER num]) op tok")
        case (Inl e)
        then have "e \<noteq> Logic_error msg"
          by (auto simp: reduce_def evaluate_def truncated_def Let_def
              split: if_splits sum.splits list.splits Token.splits oper.splits option.splits)
        with run digit(1) Some p Inl show ?thesis by (cases e) (auto simp: loop_digit)
      next
        case (Inr st)
        obtain toks1 op1 tok1 where st: "st = (toks1, op1, tok1)" by (cases st)
        from digit(2) [OF Some [unfolded p] Inr [unfolded st]] run digit(1) Some p Inr st
        show ?thesis by (simp add: loop_digit)
      qed
    qed
  qed
next
  case (reference n c rest toks op tok h)
  show ?case
  proof
    assume run: "parse_expr_loop n tk (c # rest) toks op tok h = Some (x2, h')"
    show "x2 \<noteq> Inl (Logic_error msg)"
    proof (cases "get_number_by_str rest")
      case None
      with run reference(1) show ?thesis by (auto simp: loop_reference)
    next
      case (Some p)
      obtain num it where p: "p = (num, it)" by (cases p)
      show ?thesis
      proof (cases "ref_row num + 1 > m_rows tk \<or> ref_row num < 0")
        case True
        with run reference(1) Some p show ?thesis by (auto simp: loop_reference)
      next
        case False
        then have row: "0 \<le> ref_row num" "ref_row num < m_rows tk" by simp_all
        let ?co = "(ref_row num, get_col_by_char tk c)"
        from run reference(1) Some p False obtain y h1 where
          res: "resolve_cell n tk ?co h = Some (y, h1)"
          by (auto simp: loop_reference split: option.splits)
        have ny: "y \<noteq> Inl (Logic_error msg)"
          using res
        proof (rule resolve_cell_no_internal_error)
          assume absent: "cache_find h (get_cell_by_coords ?co) = None"
          from reference(2) [OF Some [unfolded p] row absent] absent
          show "parse_reference n tk ?co h = Some (y, h1) \<longrightarrow> y \<noteq> Inl (Logic_error msg)" by simp
        qed
        show ?thesis
        proof (cases y)
          case (Inl e)
          with run reference(1) Some p False res ny show ?thesis by (auto simp: loop_reference)
        next
          case (Inr t)
          show ?thesis
          proof (cases "reduce (toks @ [t]) op t")
            case (Inl e)
            then have "e \<noteq> Logic_error msg"
              by (auto simp: reduce_def evaluate_def truncated_def Let_def
                  split: if_splits sum.splits list.splits Token.splits oper.splits option.splits)
            with run reference(1) Some p False res Inr Inl show ?thesis
              by (cases e) (auto simp: loop_reference)
          next
            case red: (Inr st)
            obtain toks1 op1 tok1 where st: "st = (toks1, op1, tok1)" by (cases st)
            from reference(3) [OF Some [unfolded p] row res [unfolded Inr] red [unfolded st]]
              run reference(1) Some p False res Inr red st
            show ?thesis by (simp add: loop_reference)
          qed
        qed
      qed
    qed
  qed
next
  case (other n c rest toks op tok h)
  then show ?case by (auto simp: loop_other)
next
  case (cell n coords h)
  show ?case
  proof (intro impI)
    assume absent: "cache_find h (get_cell_by_coords coords) = None"
      and run: "parse_reference n tk coords h = Some (x, h')"
    show "x \<noteq> Inl (Logic_error msg)"
    proof (cases "table_at tk (fst coords) (snd coords)")
      case None
      with run show ?thesis by (auto simp: reference_outside)
    next
      case (Some s)
      show ?thesis
      proof (cases "is_expression s")
        case False
        from run show ?thesis
          unfolding reference_plain [OF Some absent False]
          by (auto simp: stoi_def split: if_splits sum.splits)
      next
        case True
        from run obtain m where n: "n = Suc m"
          unfolding reference_formula [OF Some absent True] by (cases n) auto
        from run obtain y h1 where y: "parse_expr m tk (tl s) (emplace (get_cell_by_coords coords) h) = Some (y, h1)"
          unfolding reference_formula [OF Some absent True] n by (auto split: option.splits)
        with cell [OF Some absent True n] have "y \<noteq> Inl (Logic_error msg)" by simp
        with run y show ?thesis
          unfolding reference_formula [OF Some absent True] n
          by (auto split: sum.splits exn.splits)
      qed
    qed
  qed
qed

lemma internal_error_unreachable:
  "parse_expr n tk str h \<noteq> Some (Inl (Logic_error msg), h')"
  using no_internal_error(1) [of n tk str h "Inl (Logic_error msg)" h' msg] by auto

lemma run_loop_diagnostics:
  "run_loop n tk exs h diag = Some (Inr (h', diag')) \<Longrightarrow> set diag' \<subseteq> set diag \<union> {Out_of_range}"
proof (induction exs arbitrary: h diag)
  case Nil
  then show ?case by auto
next
  case (Cons ex exs)
  let ?k = "get_cell_by_coords (m_coords ex)"
  show ?case
  proof (cases "cache_find h ?k = None")
    case False
    with Cons show ?thesis by (simp add: Let_def)
  next
    case absent: True
    from Cons.prems absent obtain x h1 where
      p: "parse_expr n tk (m_value ex) (emplace ?k h) = Some (x, h1)"
      by (auto simp: Let_def split: option.splits)
    have nl: "x \<noteq> Inl (Logic_error msg)" for msg
      using p internal_error_unreachable by blast
    from Cons.prems absent p obtain t diag1 where
      r: "run_loop n tk exs (assign ?k t h1) diag1 = Some (Inr (h', diag'))"
      and d: "diag1 = diag \<or> diag1 = diag @ [Out_of_range]"
      using nl by (auto simp: Let_def split: sum.splits exn.splits)
    from Cons.IH [OF r] d show ?thesis by auto
  qed
qed

text \<open>
  Claim C10 fails in its second half. On the grid A1 = \<^verbatim>\<open>=B1\<close>, B1 = \<^verbatim>\<open>99999999999\<close> the
  cell B1 passes \<^verbatim>\<open>is_number\<close>, \<^verbatim>\<open>std::stoi\<close> throws \<^verbatim>\<open>std::out_of_range\<close>, which is a
  \<^verbatim>\<open>std::logic_error\<close> and not a \<^verbatim>\<open>std::domain_error\<close>: it passes the handler of
  \<open>parse_reference\<close> and reaches the diagnostic handler of \<open>run\<close>. B1 stays reserved
  without a commit, and A1 is committed with the default token.
\<close>

theorem logic_error_handler_fires:
  "run grid_big_literal =
     Some (Inr ([Commit ''A1'' T_UNDEFINED, Reserve ''B1'', Reserve ''A1''], [Out_of_range]))"
  by code_simp

subsection \<open>What \<open>run\<close> leaves in the cache\<close>


text \<open>
  Claim C4 fails for a formula with no text. On the grid A1 = \<^verbatim>\<open>=\<close>, B1 = \<^verbatim>\<open>=A1\<close> the
  run completes with no diagnostic, so no logic error occurred, and the entry of the
  formula cell A1 is the Pending token, not a Number or a Text token.
\<close>

theorem pending_after_run:
  "run grid_empty_formula =
     Some (Inr ([Commit ''B1'' (T_STRING ''#E_CROSS_REF''), Reserve ''B1'',
                 Commit ''A1'' T_UNDEFINED, Reserve ''A1''], [])) \<and>
   get_cell_by_coords (m_coords (hd (m_expressions grid_empty_formula))) = ''A1'' \<and>
   cache_find [Commit ''B1'' (T_STRING ''#E_CROSS_REF''), Reserve ''B1'',
               Commit ''A1'' T_UNDEFINED, Reserve ''A1''] ''A1'' = Some T_UNDEFINED"
  by code_simp

subsection \<open>The numbers of the model are values of \<^verbatim>\<open>int\<close>\<close>

text \<open>
  Two facts that the embedding relies on. The number that \<open>get_number_by_str\<close> returns
  is never the least \<^verbatim>\<open>int\<close>, so the subtraction in
  \<^verbatim>\<open>short row = get_number_by_str(it, str) - 1\<close> cannot overflow
  (\<open>get_number_by_str_above_min\<close>). And every number token that the program builds, on
  the stack of operands or in the cache, holds a value of the \<^verbatim>\<open>int\<close> range
  (\<open>parse_ok\<close>, \<open>run_numbers_in_range\<close>): these are the operands for which the
  arithmetic of \<open>evaluate\<close> on doubles is exact.
\<close>

lemma get_number_by_str_loop_range:
  "get_number_by_str_loop num s = Some (v, it) \<Longrightarrow> s \<noteq> [] \<Longrightarrow> int_range v"
  by (induction num s rule: get_number_by_str_loop.induct) (auto split: if_splits)

lemma get_number_by_str_loop_digits_above_min:
  "get_number_by_str_loop num s = Some (v, it) \<Longrightarrow> s \<noteq> [] \<Longrightarrow> isdigit (hd s) \<Longrightarrow>
     - 2147483648 < v"
proof (induction num s rule: get_number_by_str_loop.induct)
  case (1 num)
  then show ?case by simp
next
  case (2 num c rest)
  from 2(4) have c: "0 \<le> char_int c - 48" by (simp add: isdigit_def)
  show ?case
  proof (cases "rest = [] \<or> \<not> isdigit (hd rest)")
    case True
    with 2(2) have "int_range (num * 10)" and v: "v = char_int c - 48 + num * 10"
      by (auto split: if_splits)
    then have lo: "- 2147483648 \<le> num * 10" by (simp add: int_range_def)
    have "- 214748364 \<le> num"
    proof (rule ccontr)
      assume "\<not> - 214748364 \<le> num"
      then have "num \<le> - 214748365" by simp
      then have "num * 10 \<le> - 2147483650" by simp
      with lo show False by simp
    qed
    then have "- 2147483640 \<le> num * 10" by simp
    with c v show ?thesis by simp
  next
    case False
    with 2 show ?thesis by (auto split: if_splits)
  qed
qed

lemma get_number_by_str_above_min:
  assumes "get_number_by_str s = Some (num, it)"
  shows "int_range (num - 1)"
proof (cases s)
  case Nil
  with assms show ?thesis by (simp add: get_number_by_str_def int_range_def)
next
  case (Cons c rest)
  have up: "int_range num"
    using assms Cons get_number_by_str_loop_range [of 0 s num it] by (simp add: get_number_by_str_def)
  have "- 2147483648 < num"
  proof (cases "rest = [] \<or> \<not> isdigit (hd rest)")
    case True
    with assms Cons have "num = char_int c - 48"
      by (auto simp: get_number_by_str_def split: if_splits)
    moreover have "- 128 \<le> char_int c" using of_char_int_bounds [of c] by (auto simp: char_int_def Let_def)
    ultimately show ?thesis by simp
  next
    case False
    with assms Cons have "get_number_by_str_loop (char_int c - 48) rest = Some (num, it)"
      by (auto simp: get_number_by_str_def split: if_splits)
    with False show ?thesis by (intro get_number_by_str_loop_digits_above_min) auto
  qed
  with up show ?thesis by (simp add: int_range_def)
qed

lemma cache_find_ok: "cache_ok h \<Longrightarrow> cache_find h k = Some t \<Longrightarrow> token_ok t"
  unfolding cache_ok_def
  by (induction h k rule: cache_find.induct) (auto split: if_splits)

lemma truncated_ok:
  "truncated d below = Inr (t, toks') \<Longrightarrow> (\<exists>k. t = T_NUMBER k \<and> int_range k) \<and> toks' = below"
  by (cases d) (auto simp: truncated_def static_cast_int_def Let_def split: if_splits)

lemma evaluate_ok:
  assumes "evaluate toks op = Inr (t, toks')" "list_all token_ok toks"
  shows "token_ok t \<and> list_all token_ok toks'"
proof -
  from assms(1) obtain right left below where r: "rev toks = right # left # below"
    by (cases "rev toks"; cases "tl (rev toks)") (auto simp: evaluate_def)
  with assms(1) obtain l r' where lr: "left = T_NUMBER l" "right = T_NUMBER r'"
    by (cases left; cases right) (auto simp: evaluate_def)
  from assms(1) r lr obtain d where "truncated d (rev below) = Inr (t, toks')"
    by (cases op) (auto simp: evaluate_def Let_def split: if_splits)
  then have t: "(\<exists>k. t = T_NUMBER k \<and> int_range k) \<and> toks' = rev below" by (rule truncated_ok)
  from r have "set below \<subseteq> set toks" by (metis set_rev set_subset_Cons subset_trans)
  with assms(2) have "list_all token_ok (rev below)" by (auto simp: list_all_iff)
  with t show ?thesis by auto
qed

lemma reduce_ok:
  assumes "reduce toks op tok = Inr (toks', op', tok')" "list_all token_ok toks" "token_ok tok"
  shows "list_all token_ok toks' \<and> token_ok tok'"
  using assms evaluate_ok [of toks op]
  by (auto simp: reduce_def split: if_splits sum.splits)

lemma resolve_cell_ok:
  assumes "resolve_cell n tk coords h = Some (x, h1)" "cache_ok h"
    and "cache_find h (get_cell_by_coords coords) = None \<Longrightarrow>
           parse_reference n tk coords h = Some (x, h1) \<Longrightarrow>
           cache_ok h1 \<and> (\<forall>t. x = Inr t \<longrightarrow> token_ok t)"
  shows "cache_ok h1 \<and> (\<forall>t. x = Inr t \<longrightarrow> token_ok t)"
  using assms cache_find_ok [OF assms(2)]
  by (auto simp: resolve_cell_def split: option.splits if_splits)

lemma parse_ok:
  "cache_ok h \<longrightarrow> parse_expr n tk str h = Some (x, h') \<longrightarrow>
     cache_ok h' \<and> (\<forall>t. x = Inr t \<longrightarrow> token_ok t)"
  "cache_ok h \<and> list_all token_ok toks \<and> token_ok tok \<longrightarrow>
     parse_expr_loop n tk str toks op tok h = Some (x2, h') \<longrightarrow>
     cache_ok h' \<and> (\<forall>toks' op' tok'. x2 = Inr (toks', op', tok') \<longrightarrow>
                       list_all token_ok toks' \<and> token_ok tok')"
  "cache_ok h \<longrightarrow> parse_reference n tk coords h = Some (x, h') \<longrightarrow>
     cache_ok h' \<and> (\<forall>t. x = Inr t \<longrightarrow> token_ok t)"
proof (induction n str h and n str toks op tok h and n coords h
    arbitrary: x h' and x2 h' and x h' rule: parse_induct [where tk = tk])
  case (expr n str h)
  show ?case
  proof (intro impI)
    assume ok: "cache_ok h" and a: "parse_expr n tk str h = Some (x, h')"
    then obtain y where y: "parse_expr_loop n tk str [] OP_NONE T_UNDEFINED h = Some (y, h')"
      by (auto simp: parse_expr.simps split: option.splits sum.splits prod.splits)
    with expr ok have r: "cache_ok h' \<and> (\<forall>toks' op' tok'. y = Inr (toks', op', tok') \<longrightarrow>
                       list_all token_ok toks' \<and> token_ok tok')" by simp
    have "token_ok (last toks')" if "list_all token_ok toks'" "length toks' = 1" for toks'
      using that by (cases toks') auto
    with a y r show "cache_ok h' \<and> (\<forall>t. x = Inr t \<longrightarrow> token_ok t)"
      by (cases y) (auto simp: parse_expr.simps split: if_splits)
  qed
next
  case (nil n toks op tok h)
  show ?case by auto
next
  case (operator n c rest toks op tok h)
  show ?case
  proof (intro impI)
    assume ok: "cache_ok h \<and> list_all token_ok toks \<and> token_ok tok"
      and run: "parse_expr_loop n tk (c # rest) toks op tok h = Some (x2, h')"
    show "cache_ok h' \<and> (\<forall>toks' op' tok'. x2 = Inr (toks', op', tok') \<longrightarrow>
                       list_all token_ok toks' \<and> token_ok tok')"
    proof (cases "op \<noteq> OP_NONE \<or> toks = []")
      case True
      with run operator(1) ok show ?thesis by (auto simp: loop_operator)
    next
      case False
      then have "parse_expr_loop n tk rest toks (get_operator c) tok h = Some (x2, h')"
        using run operator(1) by (simp add: loop_operator)
      with operator(2) False ok show ?thesis by simp
    qed
  qed
next
  case (digit n c rest toks op tok h)
  show ?case
  proof (intro impI)
    assume ok: "cache_ok h \<and> list_all token_ok toks \<and> token_ok tok"
      and run: "parse_expr_loop n tk (c # rest) toks op tok h = Some (x2, h')"
    show "cache_ok h' \<and> (\<forall>toks' op' tok'. x2 = Inr (toks', op', tok') \<longrightarrow>
                       list_all token_ok toks' \<and> token_ok tok')"
    proof (cases "get_number_by_str (c # rest)")
      case None
      with run digit(1) ok show ?thesis by (auto simp: loop_digit)
    next
      case (Some p)
      obtain num it where p: "p = (num, it)" by (cases p)
      from Some p have num: "int_range num"
        using get_number_by_str_loop_range [of 0 "c # rest" num it] by (simp add: get_number_by_str_def)
      show ?thesis
      proof (cases "reduce (toks @ [T_NUMBER num]) op tok")
        case (Inl e)
        with run digit(1) Some p ok show ?thesis by (auto simp: loop_digit)
      next
        case (Inr st)
        obtain toks1 op1 tok1 where st: "st = (toks1, op1, tok1)" by (cases st)
        have "list_all token_ok toks1 \<and> token_ok tok1"
          using Inr [unfolded st] ok num by (intro reduce_ok) auto
        with digit(2) [OF Some [unfolded p] Inr [unfolded st]] run digit(1) Some p Inr st ok
        show ?thesis by (simp add: loop_digit)
      qed
    qed
  qed
next
  case (reference n c rest toks op tok h)
  show ?case
  proof (intro impI)
    assume ok: "cache_ok h \<and> list_all token_ok toks \<and> token_ok tok"
      and run: "parse_expr_loop n tk (c # rest) toks op tok h = Some (x2, h')"
    show "cache_ok h' \<and> (\<forall>toks' op' tok'. x2 = Inr (toks', op', tok') \<longrightarrow>
                       list_all token_ok toks' \<and> token_ok tok')"
    proof (cases "get_number_by_str rest")
      case None
      with run reference(1) ok show ?thesis by (auto simp: loop_reference)
    next
      case (Some p)
      obtain num it where p: "p = (num, it)" by (cases p)
      show ?thesis
      proof (cases "ref_row num + 1 > m_rows tk \<or> ref_row num < 0")
        case True
        with run reference(1) Some p ok show ?thesis by (auto simp: loop_reference)
      next
        case False
        then have row: "0 \<le> ref_row num" "ref_row num < m_rows tk" by simp_all
        let ?co = "(ref_row num, get_col_by_char tk c)"
        from run reference(1) Some p False obtain y h1 where
          res: "resolve_cell n tk ?co h = Some (y, h1)"
          by (auto simp: loop_reference split: option.splits)
        have r1: "cache_ok h1 \<and> (\<forall>t. y = Inr t \<longrightarrow> token_ok t)"
          using res
        proof (rule resolve_cell_ok)
          show "cache_ok h" using ok by simp
        next
          assume absent: "cache_find h (get_cell_by_coords ?co) = None"
            and pr: "parse_reference n tk ?co h = Some (y, h1)"
          from reference(2) [OF Some [unfolded p] row absent] ok pr
          show "cache_ok h1 \<and> (\<forall>t. y = Inr t \<longrightarrow> token_ok t)" by simp
        qed
        show ?thesis
        proof (cases y)
          case (Inl e)
          with run reference(1) Some p False res r1 show ?thesis by (auto simp: loop_reference)
        next
          case (Inr t)
          with r1 have t: "token_ok t" by simp
          show ?thesis
          proof (cases "reduce (toks @ [t]) op t")
            case (Inl e)
            with run reference(1) Some p False res Inr r1 show ?thesis by (auto simp: loop_reference)
          next
            case red: (Inr st)
            obtain toks1 op1 tok1 where st: "st = (toks1, op1, tok1)" by (cases st)
            have "list_all token_ok toks1 \<and> token_ok tok1"
              using red [unfolded st] ok t by (intro reduce_ok) auto
            with reference(3) [OF Some [unfolded p] row res [unfolded Inr] red [unfolded st]]
              run reference(1) Some p False res Inr red st r1
            show ?thesis by (simp add: loop_reference)
          qed
        qed
      qed
    qed
  qed
next
  case (other n c rest toks op tok h)
  then show ?case by (auto simp: loop_other)
next
  case (cell n coords h)
  show ?case
  proof (intro impI)
    assume ok: "cache_ok h" and run: "parse_reference n tk coords h = Some (x, h')"
    let ?k = "get_cell_by_coords coords"
    show "cache_ok h' \<and> (\<forall>t. x = Inr t \<longrightarrow> token_ok t)"
    proof (cases "table_at tk (fst coords) (snd coords)")
      case None
      with run ok show ?thesis by (auto simp: reference_outside)
    next
      case (Some s)
      show ?thesis
      proof (cases "cache_find h ?k = None")
        case False
        with run Some ok show ?thesis by (auto simp: reference_present)
      next
        case absent: True
        show ?thesis
        proof (cases "is_expression s")
          case False
          from run ok show ?thesis
            unfolding reference_plain [OF Some absent False]
            by (auto simp: stoi_def cache_ok_def emplace_def assign_def split: if_splits sum.splits)
        next
          case True
          from run obtain m where n: "n = Suc m"
            unfolding reference_formula [OF Some absent True] by (cases n) auto
          from run obtain y h1 where y: "parse_expr m tk (tl s) (emplace ?k h) = Some (y, h1)"
            unfolding reference_formula [OF Some absent True] n by (auto split: option.splits)
          have "cache_ok (emplace ?k h)" using ok by (simp add: cache_ok_def emplace_def)
          with cell [OF Some absent True n] y
          have "cache_ok h1 \<and> (\<forall>t. y = Inr t \<longrightarrow> token_ok t)" by simp
          with run y show ?thesis
            unfolding reference_formula [OF Some absent True] n
            by (auto simp: cache_ok_def assign_def split: sum.splits exn.splits)
        qed
      qed
    qed
  qed
qed

lemma run_loop_ok:
  "run_loop n tk exs h diag = Some (Inr (h', diag')) \<Longrightarrow> cache_ok h \<Longrightarrow> cache_ok h'"
proof (induction exs arbitrary: h diag)
  case Nil
  then show ?case by simp
next
  case (Cons ex exs)
  let ?k = "get_cell_by_coords (m_coords ex)"
  show ?case
  proof (cases "cache_find h ?k = None")
    case False
    with Cons show ?thesis by (simp add: Let_def)
  next
    case absent: True
    from Cons.prems(1) absent obtain x h1 where
      p: "parse_expr n tk (m_value ex) (emplace ?k h) = Some (x, h1)"
      by (auto simp: Let_def split: option.splits)
    have "cache_ok (emplace ?k h)" using Cons.prems(2) by (simp add: cache_ok_def emplace_def)
    with p parse_ok(1) have r: "cache_ok h1 \<and> (\<forall>t. x = Inr t \<longrightarrow> token_ok t)" by blast
    from Cons.prems(1) absent p obtain t diag1 where
      q: "run_loop n tk exs (assign ?k t h1) diag1 = Some (Inr (h', diag'))"
      and t: "x = Inr t \<or> t = T_UNDEFINED \<or> (\<exists>msg. t = T_STRING msg)"
      by (auto simp: Let_def split: sum.splits exn.splits)
    from r t have "cache_ok (assign ?k t h1)" by (auto simp: cache_ok_def assign_def)
    with q show ?thesis by (rule Cons.IH)
  qed
qed

lemma run_numbers_in_range:
  assumes "run tk = Some (Inr (h, diag))" "cache_find h k = Some (T_NUMBER v)"
  shows "int_range v"
proof -
  from assms(1) have "cache_ok h"
    unfolding run_def run_fuel_def by (rule run_loop_ok) (simp add: cache_ok_def)
  with assms(2) show ?thesis using cache_find_ok by fastforce
qed

subsection \<open>Flat reduction from left to right\<close>

lemma operations_text_head:
  "chain_ok tk ops \<Longrightarrow> operations_text ops = [] \<or> \<not> isdigit (hd (operations_text ops))"
  by (cases ops) (auto simp: chain_ok_def operations_text_def is_operator_not_digit)

lemma parse_expr_loop_operand:
  assumes "operand_ok tk x" "rest = [] \<or> \<not> isdigit (hd rest)"
  shows "parse_expr_loop n tk (operand_text x @ rest) toks op tok h =
           (case operand_value n tk x h of
              None \<Rightarrow> None
            | Some (Inl e, h') \<Rightarrow> Some (Inl e, h')
            | Some (Inr t, h') \<Rightarrow>
                (case reduce (toks @ [t]) op (case x of Lit ds \<Rightarrow> tok | Ref c ds \<Rightarrow> t) of
                   Inl e \<Rightarrow> Some (Inl e, h')
                 | Inr (toks', op', tok') \<Rightarrow> parse_expr_loop n tk rest toks' op' tok' h'))"
proof (cases x)
  case (Lit ds)
  with assms(1) have lit: "literal ds" by simp
  then obtain d ds' where ds: "ds = d # ds'" and d: "isdigit d"
    by (cases ds) (auto simp: literal_def)
  have "get_number_by_str (d # ds' @ rest) = Some (dec_value ds, last ds # rest)"
    using get_number_by_str_literal [OF lit assms(2)] ds by simp
  then show ?thesis using Lit ds loop_digit [OF d, of n tk "ds' @ rest" toks op tok h]
    by (simp split: sum.splits)
next
  case (Ref c ds)
  with assms(1) have c: "is_ref_candidate tk c" and lit: "literal ds" by simp_all
  have "get_number_by_str (ds @ rest) = Some (dec_value ds, last ds # rest)"
    using lit assms(2) by (rule get_number_by_str_literal)
  then show ?thesis using Ref loop_reference [OF c, of n "ds @ rest" toks op tok h]
    by (simp split: option.splits sum.splits)
qed

lemma parse_expr_loop_second_operand:
  assumes "operand_ok tk x" "rest = [] \<or> \<not> isdigit (hd rest)"
    and "operand_value n tk x h = Some (Inr t, hx)" "op \<noteq> OP_NONE" "op \<noteq> OP_UNKNOWN"
  shows "parse_expr_loop n tk (operand_text x @ rest) [l] op tok h =
           (case evaluate [l, t] op of
              Inl e \<Rightarrow> Some (Inl e, hx)
            | Inr (v, below) \<Rightarrow> parse_expr_loop n tk rest [v] OP_NONE v hx)"
proof (cases "evaluate [l, t] op")
  case (Inl e)
  then show ?thesis
    using assms(3-5) parse_expr_loop_operand [OF assms(1,2), of n "[l]" op tok h]
    by (simp add: reduce_def)
next
  case (Inr q)
  obtain v below where q: "q = (v, below)" by (cases q)
  with Inr evaluate_leaves_below have "below = []" by fastforce
  with Inr q show ?thesis
    using assms(3-5) parse_expr_loop_operand [OF assms(1,2), of n "[l]" op tok h]
    by (simp add: reduce_def)
qed

lemma parse_expr_loop_operations:
  assumes "chain_ok tk ops"
  shows "parse_expr_loop n tk (operations_text ops) [acc] OP_NONE tok h =
           (case fold_left n tk acc ops h of
              None \<Rightarrow> None
            | Some (Inl e, h') \<Rightarrow> Some (Inl e, h')
            | Some (Inr t, h') \<Rightarrow> Some (Inr ([t], OP_NONE, if ops = [] then tok else t), h'))"
  using assms
proof (induction ops arbitrary: acc tok h)
  case Nil
  then show ?case by (simp add: operations_text_def)
next
  case (Cons p ops)
  obtain oc x where p: "p = (oc, x)" by (cases p)
  from Cons.prems p have oc: "is_operator oc" and ok: "operand_ok tk x"
    and rest: "chain_ok tk ops" by (simp_all add: chain_ok_def)
  have shape: "operations_text (p # ops) = oc # (operand_text x @ operations_text ops)"
    by (simp add: operations_text_def p)
  have step: "parse_expr_loop n tk (operations_text (p # ops)) [acc] OP_NONE tok h =
      parse_expr_loop n tk (operand_text x @ operations_text ops) [acc] (get_operator oc) tok h"
    using oc by (simp add: shape loop_operator)
  note opnd = parse_expr_loop_operand [OF ok operations_text_head [OF rest],
      of n "[acc]" "get_operator oc" tok h]
  show ?case
  proof (cases "operand_value n tk x h")
    case None
    then show ?thesis using step opnd p by simp
  next
    case (Some r)
    obtain v h1 where r: "r = (v, h1)" by (cases r)
    show ?thesis
    proof (cases v)
      case (Inl e)
      then show ?thesis using step opnd p Some r by simp
    next
      case (Inr t)
      show ?thesis
      proof (cases "evaluate [acc, t] (get_operator oc)")
        case (Inl e)
        then show ?thesis using step opnd p Some r Inr is_operator_oper [OF oc]
          by (simp add: reduce_def)
      next
        case ev: (Inr q)
        obtain t' toks' where q: "q = (t', toks')" by (cases q)
        with ev evaluate_leaves_below have "toks' = []" by fastforce
        with ev q have red: "reduce ([acc] @ [t]) (get_operator oc) any = Inr ([t'], OP_NONE, t')" for any
          using is_operator_oper [OF oc] by (simp add: reduce_def)
        have ih: "parse_expr_loop n tk (operations_text ops) [t'] OP_NONE t' h1 =
           (case fold_left n tk t' ops h1 of
              None \<Rightarrow> None
            | Some (Inl e, h') \<Rightarrow> Some (Inl e, h')
            | Some (Inr t'', h') \<Rightarrow> Some (Inr ([t''], OP_NONE, if ops = [] then t' else t''), h'))"
          using rest by (rule Cons.IH)
        have nil: "fold_left n tk t' ops h1 = Some (Inr t'', h') \<Longrightarrow> ops = [] \<Longrightarrow> t'' = t'" for t'' h'
          by simp
        show ?thesis using step opnd p Some r Inr ev q red ih nil
          by (auto split: option.splits sum.splits)
      qed
    qed
  qed
qed

lemma parse_expr_chain:
  assumes "operand_ok tk x0" and "chain_ok tk ops"
  shows "parse_expr n tk (operand_text x0 @ operations_text ops) h = chain_value n tk x0 ops h"
proof -
  note first = parse_expr_loop_operand [OF assms(1) operations_text_head [OF assms(2)],
      of n "[]" OP_NONE T_UNDEFINED h]
  show ?thesis
  proof (cases "operand_value n tk x0 h")
    case None
    then show ?thesis using first by (simp add: parse_expr.simps chain_value_def)
  next
    case (Some r)
    obtain v h1 where r: "r = (v, h1)" by (cases r)
    show ?thesis
    proof (cases v)
      case (Inl e)
      then show ?thesis using first Some r by (simp add: parse_expr.simps chain_value_def)
    next
      case (Inr t)
      have "parse_expr_loop n tk (operand_text x0 @ operations_text ops) [] OP_NONE T_UNDEFINED h =
          parse_expr_loop n tk (operations_text ops) [t] OP_NONE
            (case x0 of Lit ds \<Rightarrow> T_UNDEFINED | Ref c ds \<Rightarrow> t) h1"
        using first Some r Inr by (simp add: reduce_def)
      also have "\<dots> = (case fold_left n tk t ops h1 of
              None \<Rightarrow> None
            | Some (Inl e, h') \<Rightarrow> Some (Inl e, h')
            | Some (Inr t', h') \<Rightarrow> Some (Inr ([t'], OP_NONE,
                if ops = [] then (case x0 of Lit ds \<Rightarrow> T_UNDEFINED | Ref c ds \<Rightarrow> t) else t'), h'))"
        using assms(2) by (rule parse_expr_loop_operations)
      finally show ?thesis using Some r Inr
        by (simp add: parse_expr.simps chain_value_def split: option.splits sum.splits)
    qed
  qed
qed

lemma two_plus_three_times_four:
  "parse_expr n tk ''2+3*4'' h = Some (Inr (T_NUMBER 20), h)"
proof -
  let ?ops = "[(CHR ''+'', Lit ''3''), (CHR ''*'', Lit ''4'')]"
  have ok: "literal ''2''" "literal ''3''" "literal ''4''"
    "is_operator CHR ''+''" "is_operator CHR ''*''" by code_simp+
  have v: "dec_value ''2'' = 2" "dec_value ''3'' = 3" "dec_value ''4'' = 4"
    "get_operator CHR ''+'' = OP_ADD" "get_operator CHR ''*'' = OP_MUL" by code_simp+
  have shape: "operand_text (Lit ''2'') @ operations_text ?ops = ''2+3*4''"
    by (simp add: operations_text_def)
  have "parse_expr n tk (operand_text (Lit ''2'') @ operations_text ?ops) h =
      chain_value n tk (Lit ''2'') ?ops h"
    using ok by (intro parse_expr_chain) (simp_all add: chain_ok_def)
  also have "\<dots> = Some (Inr (T_NUMBER 20), h)"
    by (simp add: chain_value_def v evaluate_pair int_result_def int_range_def)
  finally show ?thesis unfolding shape .
qed

text \<open>
  Claim C5. A formula made of an operand followed by any number of (operator, operand)
  pairs, each operand a number literal or a reference (a valid column letter and the
  digits of a row), evaluates to the left fold of \<open>evaluate\<close> over the pairs: the value
  of each operand is pushed (for a reference the token that the look-up of the cell
  gives, which may resolve the cell and extend the cache), each operator is applied to
  the value accumulated so far and the operand that follows it as soon as that operand
  has been pushed, with no precedence among the operators, and an exception of an
  operand or of \<open>evaluate\<close> ends the scan. At both places where the scan pushes an
  operand, after a number and after a reference: when the stack held one operand and
  an operator was pending, \<open>evaluate\<close> is applied to the two operands at once, its
  result is the only operand left on the stack and no operator is pending any more.
  The formula \<^verbatim>\<open>=2+3*4\<close> yields \<open>(2 + 3) * 4 = 20\<close> in every grid and cache. The witness
  has \<^verbatim>\<open>=2+A1\<close> with A1 cached as 12, which yields 14, and \<^verbatim>\<open>=2+A1*3\<close> on the example
  table from the empty cache, which resolves A1 and yields \<open>(2 + 12) * 3 = 42\<close>.
\<close>

theorem parse_expr_flat_left_to_right:
  "(operand_ok tk a \<and> chain_ok tk ops \<longrightarrow>
      parse_expr n tk (operand_text a @ operations_text ops) h = chain_value n tk a ops h) \<and>
   (operand_ok tk x \<and> (rest = [] \<or> \<not> isdigit (hd rest)) \<and>
    operand_value n tk x h = Some (Inr t, hx) \<and> op \<noteq> OP_NONE \<and> op \<noteq> OP_UNKNOWN \<longrightarrow>
      parse_expr_loop n tk (operand_text x @ rest) [l] op tok h =
        (case evaluate [l, t] op of
           Inl e \<Rightarrow> Some (Inl e, hx)
         | Inr (v, below) \<Rightarrow> parse_expr_loop n tk rest [v] OP_NONE v hx)) \<and>
   parse_expr n tk ''2+3*4'' h = Some (Inr (T_NUMBER 20), h)"
  using parse_expr_chain parse_expr_loop_second_operand two_plus_three_times_four by blast

theorem parse_expr_flat_left_to_right_witness:
  "operand_ok grid_example (Lit ''2'') \<and>
   chain_ok grid_example [(CHR ''+'', Ref CHR ''A'' ''1'')] \<and>
   parse_expr 0 grid_example ''2+A1'' [Commit ''A1'' (T_NUMBER 12), Reserve ''A1''] =
     Some (Inr (T_NUMBER 14), [Commit ''A1'' (T_NUMBER 12), Reserve ''A1'']) \<and>
   chain_ok grid_example [(CHR ''+'', Ref CHR ''A'' ''1''), (CHR ''*'', Lit ''3'')] \<and>
   parse_expr 1 grid_example ''2+A1*3'' [] =
     Some (Inr (T_NUMBER 42), [Commit ''A1'' (T_NUMBER 12), Reserve ''A1'']) \<and>
   operand_ok grid_example (Ref CHR ''A'' ''1'') \<and>
   operand_value 0 grid_example (Ref CHR ''A'' ''1'') [Commit ''A1'' (T_NUMBER 12), Reserve ''A1''] =
     Some (Inr (T_NUMBER 12), [Commit ''A1'' (T_NUMBER 12), Reserve ''A1'']) \<and>
   parse_expr_loop 0 grid_example ''A1'' [T_NUMBER 2] OP_ADD T_UNDEFINED
       [Commit ''A1'' (T_NUMBER 12), Reserve ''A1''] =
     Some (Inr ([T_NUMBER 14], OP_NONE, T_NUMBER 14), [Commit ''A1'' (T_NUMBER 12), Reserve ''A1''])"
proof -
  let ?hc = "[Commit ''A1'' (T_NUMBER 12), Reserve ''A1'']"
  let ?ref = "Ref CHR ''A'' ''1''"
  let ?one = "[(CHR ''+'', ?ref)]"
  let ?two = "[(CHR ''+'', ?ref), (CHR ''*'', Lit ''3'')]"
  have a: "operand_ok grid_example (Lit ''2'') \<and> chain_ok grid_example ?one" by code_simp
  have b: "chain_ok grid_example ?two" by code_simp
  have c: "operand_ok grid_example ?ref \<and> ([] = [] \<or> \<not> isdigit (hd [])) \<and>
      operand_value 0 grid_example ?ref ?hc = Some (Inr (T_NUMBER 12), ?hc) \<and>
      OP_ADD \<noteq> OP_NONE \<and> OP_ADD \<noteq> OP_UNKNOWN"
    by code_simp
  have s1: "operand_text (Lit ''2'') @ operations_text ?one = ''2+A1''" by code_simp
  have s2: "operand_text (Lit ''2'') @ operations_text ?two = ''2+A1*3''" by code_simp
  have s3: "operand_text ?ref @ [] = ''A1''" by code_simp
  have v1: "chain_value 0 grid_example (Lit ''2'') ?one ?hc = Some (Inr (T_NUMBER 14), ?hc)"
    by code_simp
  have v2: "chain_value 1 grid_example (Lit ''2'') ?two [] = Some (Inr (T_NUMBER 42), ?hc)"
    by code_simp
  have v3: "(case evaluate [T_NUMBER 2, T_NUMBER 12] OP_ADD of
           Inl e \<Rightarrow> Some (Inl e, ?hc)
         | Inr (v, below) \<Rightarrow> parse_expr_loop 0 grid_example [] [v] OP_NONE v ?hc) =
      Some (Inr ([T_NUMBER 14], OP_NONE, T_NUMBER 14), ?hc)"
    by code_simp
  note t1 = parse_expr_flat_left_to_right [where tk = grid_example and a = "Lit ''2''"
      and ops = ?one and n = 0 and h = ?hc and x = ?ref and rest = "[]" and t = "T_NUMBER 12"
      and hx = ?hc and op = OP_ADD and l = "T_NUMBER 2" and tok = T_UNDEFINED]
  note t2 = parse_expr_flat_left_to_right [where tk = grid_example and a = "Lit ''2''"
      and ops = ?two and n = 1 and h = "[]" and x = ?ref and rest = "[]" and t = "T_NUMBER 12"
      and hx = ?hc and op = OP_ADD and l = "T_NUMBER 2" and tok = T_UNDEFINED]
  from t1 a have "parse_expr 0 grid_example (operand_text (Lit ''2'') @ operations_text ?one) ?hc =
      chain_value 0 grid_example (Lit ''2'') ?one ?hc" by blast
  then have r1: "parse_expr 0 grid_example ''2+A1'' ?hc = Some (Inr (T_NUMBER 14), ?hc)"
    unfolding s1 v1 .
  from t2 a b have "parse_expr 1 grid_example (operand_text (Lit ''2'') @ operations_text ?two) [] =
      chain_value 1 grid_example (Lit ''2'') ?two []" by blast
  then have r2: "parse_expr 1 grid_example ''2+A1*3'' [] = Some (Inr (T_NUMBER 42), ?hc)"
    unfolding s2 v2 .
  from t1 c have "parse_expr_loop 0 grid_example (operand_text ?ref @ []) [T_NUMBER 2] OP_ADD T_UNDEFINED ?hc =
      (case evaluate [T_NUMBER 2, T_NUMBER 12] OP_ADD of
           Inl e \<Rightarrow> Some (Inl e, ?hc)
         | Inr (v, below) \<Rightarrow> parse_expr_loop 0 grid_example [] [v] OP_NONE v ?hc)" by blast
  then have r3: "parse_expr_loop 0 grid_example ''A1'' [T_NUMBER 2] OP_ADD T_UNDEFINED ?hc =
      Some (Inr ([T_NUMBER 14], OP_NONE, T_NUMBER 14), ?hc)"
    unfolding s3 v3 .
  from a b c r1 r2 r3 show ?thesis by blast
qed

subsection \<open>Cross references\<close>






























text \<open>
  Where the capital letters are not reference letters, the two formulas are no
  references: in a grid of 27 columns \<^verbatim>\<open>is_ref_candidate\<close> accepts the letter \<^verbatim>\<open>a\<close> only (the
  second block of columns, see \<open>get_cell_by_coords_upper\<close> and the theorem on that block
  above), the scan of \<^verbatim>\<open>B1\<close> and of \<^verbatim>\<open>A1\<close> stops at the first character, and both cells
  end with the Text token \<^verbatim>\<open>#E_UNEXP_SYMB\<close>.
\<close>

lemma run_grid_cycle_27:
  "m_cols grid_cycle_27 = 27 \<and> \<not> is_ref_candidate grid_cycle_27 CHR ''A'' \<and>
   \<not> is_ref_candidate grid_cycle_27 CHR ''B'' \<and>
   table_at grid_cycle_27 0 0 = Some ''=B1'' \<and> table_at grid_cycle_27 0 1 = Some ''=A1'' \<and>
   work_list_ok grid_cycle_27 \<and>
   run grid_cycle_27 =
     Some (Inr ([Commit ''B1'' (T_STRING ''#E_UNEXP_SYMB''), Reserve ''B1'',
                 Commit ''A1'' (T_STRING ''#E_UNEXP_SYMB''), Reserve ''A1''], []))"
  by code_simp



end
